theory Spec2Isabelle
  imports Complex_Main "HOL-Library.Word"
begin

section \<open>Data model of the unitig graph (DBG.cpp)\<close>

text \<open>
  The graph is a dense vector of nodes; an arc names its successor by index. Node indices
  (\<open>node_idx_t\<close>) are only compared and used as subscripts, so they are natural numbers.
  Abundances are \<open>uint32_t\<close>, \<open>kmer_size\<close> is the \<open>uint32_t\<close> member of the class,
  \<open>node.length\<close> is an \<open>int\<close> and \<open>average_abundance\<close> a \<open>double\<close>, held here by
  the real number it denotes. A \<open>std::string\<close> is a \<open>char list\<close>. The structs
  are declared in a header that is not among the sources; the types of their fields are
  read from the way DBG.cpp fills and prints them.
\<close>

record arc_t =
  forward :: bool
  successor :: nat
  to_forward :: bool

record node_t =
  unitig :: string
  node_length :: int
  abundances :: "32 word list"
  arcs :: "arc_t list"
  average_abundance :: real
  median_abundance :: "32 word"

record DBG =
  nodes :: "node_t list"
  kmer_size :: "32 word"

text \<open>
  Every way in which a call can fail to return. The constructors up to \<open>UnknownFormat\<close>
  are messages followed by \<open>exit(EXIT_FAILURE)\<close>. \<open>OtherDialect\<close> marks a header of
  the standard dialect, whose branch of the parser is not part of this development.
  \<open>InvalidArgument\<close> is the \<open>std::invalid_argument\<close> of \<open>stoull\<close>, \<open>BadAlloc\<close> the
  exception of a vector that cannot grow, \<open>OutOfRange\<close> the \<open>std::out_of_range\<close> thrown
  by \<open>vector::at\<close>, \<open>string::substr\<close> and \<open>stoull\<close>. \<open>UndefinedBehaviour\<close> stands
  for what C++ promises nothing about: an unchecked subscript outside its vector, a
  variable read before anything was stored in it, a copy past the end of a buffer, a
  number converted to a type that cannot hold it.
\<close>

datatype error =
    InconsistentPath
  | EmptyPath
  | UnknownNucleotide
  | NonProgressiveIDs
  | MissingSequence
  | WrongNumberOfAbundances
  | LineTooLong
  | NoDefLine
  | UnknownFormat
  | OtherDialect
  | InvalidArgument
  | BadAlloc
  | OutOfRange
  | UndefinedBehaviour

subsection \<open>Library operations the code relies on\<close>

text \<open>\<open>size_t\<close> arithmetic is modulo \<open>2 ^ 64\<close>.\<close>

definition wrap64 :: "int \<Rightarrow> nat" where
  "wrap64 i = nat (i mod 2 ^ 64)"

text \<open>
  \<open>a - b\<close> on \<open>size_t\<close>: the difference when \<open>b \<le> a\<close>, wrapped around otherwise.
\<close>

definition size_sub :: "nat \<Rightarrow> nat \<Rightarrow> nat" where
  "size_sub a b = (if b \<le> a then a - b else a + 2 ^ 64 - b)"

text \<open>\<open>vector::at\<close>: bounds-checked.\<close>

definition at_vec :: "'a list \<Rightarrow> nat \<Rightarrow> error + 'a" where
  "at_vec xs i = (if i < length xs then Inr (xs ! i) else Inl OutOfRange)"

text \<open>\<open>vector::operator[]\<close>: unchecked.\<close>

definition subscript :: "'a list \<Rightarrow> nat \<Rightarrow> error + 'a" where
  "subscript xs i = (if i < length xs then Inr (xs ! i) else Inl UndefinedBehaviour)"

text \<open>
  \<open>s.substr(pos, n)\<close> throws when \<open>pos > s.size()\<close> and otherwise returns at most \<open>n\<close>
  characters from \<open>pos\<close>; \<open>s.substr(pos)\<close> runs to the end of \<open>s\<close>.
\<close>

definition substr :: "string \<Rightarrow> nat \<Rightarrow> nat \<Rightarrow> error + string" where
  "substr s pos n = (if length s < pos then Inl OutOfRange else Inr (take n (drop pos s)))"

definition substr_from :: "string \<Rightarrow> nat \<Rightarrow> error + string" where
  "substr_from s pos = (if length s < pos then Inl OutOfRange else Inr (drop pos s))"

section \<open>Sequence utilities\<close>

text \<open>The \<open>switch\<close> of \<open>DBG::reverse_complement\<close>; \<open>None\<close> is its \<open>default\<close> branch.\<close>

definition complement :: "char \<Rightarrow> char option" where
  "complement ch =
     (if ch = CHR ''A'' \<or> ch = CHR ''a'' then Some CHR ''T''
      else if ch = CHR ''C'' \<or> ch = CHR ''c'' then Some CHR ''G''
      else if ch = CHR ''T'' \<or> ch = CHR ''t'' then Some CHR ''A''
      else if ch = CHR ''G'' \<or> ch = CHR ''g'' then Some CHR ''C''
      else None)"

text \<open>
  The loop of \<open>DBG::reverse_complement\<close>: \<open>rc\<close> starts as a copy of \<open>s\<close>, and step \<open>i\<close>
  stores the complement of \<open>s[i]\<close> at \<open>rc[s.length() - 1 - i]\<close>, or leaves the process at
  the first character the switch does not know.
\<close>

function rc_loop :: "string \<Rightarrow> nat \<Rightarrow> string \<Rightarrow> error + string" where
  "rc_loop s i rc =
     (if i < length s then
        (case complement (s ! i) of
           None \<Rightarrow> Inl UnknownNucleotide
         | Some c \<Rightarrow> rc_loop s (Suc i) (rc[length s - 1 - i := c]))
      else Inr rc)"
  by pat_completeness auto
termination
  by (relation "measure (\<lambda>(s, i, rc). length s - i)") auto

declare rc_loop.simps [simp del]

definition reverse_complement :: "string \<Rightarrow> error + string" where
  "reverse_complement s = rc_loop s 0 s"

definition revcomp_twice :: "string \<Rightarrow> error + string" where
  "revcomp_twice x =
     (case reverse_complement x of Inl e \<Rightarrow> Inl e | Inr y \<Rightarrow> reverse_complement y)"

subsection \<open>The specification's \<open>revcomp\<close>\<close>

text \<open>
  Written from the specification's words, to be compared with the code: the reverse
  complement under A-T and C-G, case-insensitive, output uppercase; any other character is
  fatal.
\<close>

definition upper_nt :: "char \<Rightarrow> char" where
  "upper_nt ch =
     (if ch = CHR ''a'' then CHR ''A'' else if ch = CHR ''c'' then CHR ''C''
      else if ch = CHR ''g'' then CHR ''G'' else if ch = CHR ''t'' then CHR ''T'' else ch)"

definition is_nucleotide :: "char \<Rightarrow> bool" where
  "is_nucleotide ch \<longleftrightarrow> upper_nt ch \<in> {CHR ''A'', CHR ''C'', CHR ''G'', CHR ''T''}"

definition pair_nt :: "char \<Rightarrow> char" where
  "pair_nt ch =
     (if ch = CHR ''A'' then CHR ''T'' else if ch = CHR ''T'' then CHR ''A''
      else if ch = CHR ''C'' then CHR ''G'' else if ch = CHR ''G'' then CHR ''C'' else ch)"

definition revcomp_spec :: "string \<Rightarrow> error + string" where
  "revcomp_spec s =
     (if list_all is_nucleotide s then Inr (rev (map (\<lambda>ch. pair_nt (upper_nt ch)) s))
      else Inl UnknownNucleotide)"

section \<open>Spelling a path: \<open>DBG::spell\<close>\<close>

text \<open>
  The extension loop, from index 1 on: the remaining node indices and flags are consumed in
  step. A forward step appends \<open>unitig.substr(kmer_size - 1)\<close>; a reverse step computes
  \<open>len = unitig.length() - (kmer_size - 1)\<close> in \<open>size_t\<close> and appends the reverse
  complement of \<open>unitig.substr(0, len)\<close>. \<open>kmer_size - 1\<close> is a \<open>uint32_t\<close> and wraps
  at \<open>kmer_size = 0\<close>.
\<close>

fun spell_extend :: "DBG \<Rightarrow> nat list \<Rightarrow> bool list \<Rightarrow> string \<Rightarrow> error + string" where
  "spell_extend g (v # vs) (f # fs) contig =
     (case at_vec (nodes g) v of
        Inl e \<Rightarrow> Inl e
      | Inr n \<Rightarrow>
          if f then
            (case substr_from (unitig n) (unat (kmer_size g - 1)) of
               Inl e \<Rightarrow> Inl e
             | Inr piece \<Rightarrow> spell_extend g vs fs (contig @ piece))
          else
            (case substr (unitig n) 0 (size_sub (length (unitig n)) (unat (kmer_size g - 1))) of
               Inl e \<Rightarrow> Inl e
             | Inr piece \<Rightarrow>
                 (case reverse_complement piece of
                    Inl e \<Rightarrow> Inl e
                  | Inr rc \<Rightarrow> spell_extend g vs fs (contig @ rc))))"
| "spell_extend g _ _ contig = Inr contig"

definition spell :: "DBG \<Rightarrow> nat list \<Rightarrow> bool list \<Rightarrow> error + string" where
  "spell g path_nodes forwards =
     (if length path_nodes \<noteq> length forwards then Inl InconsistentPath
      else if path_nodes = [] then Inl EmptyPath
      else
        (case at_vec (nodes g) (hd path_nodes) of
           Inl e \<Rightarrow> Inl e
         | Inr n \<Rightarrow>
             (case (if hd forwards then Inr (unitig n) else reverse_complement (unitig n)) of
                Inl e \<Rightarrow> Inl e
              | Inr contig \<Rightarrow> spell_extend g (tl path_nodes) (tl forwards) contig)))"

subsection \<open>The specification's spelling\<close>

text \<open>
  Written from the specification's words: the oriented unitig of a step is the unitig when
  the step is forward and its \<open>revcomp\<close> otherwise; the spelling starts with the oriented
  unitig of the first step and appends, for each later step, the last
  \<open>len - (k - 1)\<close> characters of that step's oriented unitig.
\<close>

definition oriented_unitig :: "node_t \<Rightarrow> bool \<Rightarrow> error + string" where
  "oriented_unitig n f = (if f then Inr (unitig n) else revcomp_spec (unitig n))"

definition last_chars :: "nat \<Rightarrow> string \<Rightarrow> string" where
  "last_chars m s = drop (length s - m) s"

fun spell_spec_rest :: "node_t list \<Rightarrow> nat \<Rightarrow> (nat \<times> bool) list \<Rightarrow> error + string" where
  "spell_spec_rest ns k [] = Inr []"
| "spell_spec_rest ns k ((v, f) # steps) =
     (case oriented_unitig (ns ! v) f of
        Inl e \<Rightarrow> Inl e
      | Inr u \<Rightarrow>
          (case spell_spec_rest ns k steps of
             Inl e \<Rightarrow> Inl e
           | Inr rest \<Rightarrow> Inr (last_chars (length u - (k - 1)) u @ rest)))"

fun spell_spec :: "node_t list \<Rightarrow> nat \<Rightarrow> (nat \<times> bool) list \<Rightarrow> error + string" where
  "spell_spec ns k [] = Inl EmptyPath"
| "spell_spec ns k ((v, f) # steps) =
     (case oriented_unitig (ns ! v) f of
        Inl e \<Rightarrow> Inl e
      | Inr u \<Rightarrow>
          (case spell_spec_rest ns k steps of
             Inl e \<Rightarrow> Inl e
           | Inr rest \<Rightarrow> Inr (u @ rest)))"

section \<open>Counts of a path: \<open>DBG::get_counts\<close>\<close>

text \<open>
  A \<open>size_t\<close> converted to \<open>int\<close> keeps its low 32 bits, read as two's complement.
\<close>

definition int_of_size :: "nat \<Rightarrow> int" where
  "int_of_size v = (int v + 2 ^ 31) mod 2 ^ 32 - 2 ^ 31"

text \<open>
  The backward read \<open>for(int k = int(abundances.size() - 1); k > -1; k--)\<close>, which
  pushes \<open>abundances[k]\<close>.
\<close>

function count_down :: "32 word list \<Rightarrow> int \<Rightarrow> 32 word list \<Rightarrow> 32 word list" where
  "count_down ab k counts =
     (if -1 < k then count_down ab (k - 1) (counts @ [ab ! nat k]) else counts)"
  by pat_completeness auto
termination
  by (relation "measure (\<lambda>(ab, k, counts). nat (k + 1))") auto

declare count_down.simps [simp del]

text \<open>
  \<open>counts\<close> is the caller's vector: the function appends to it and never clears it. The
  loop runs over \<open>path_nodes\<close> and reads \<open>forwards[i]\<close> unchecked.
\<close>

fun get_counts :: "DBG \<Rightarrow> nat list \<Rightarrow> bool list \<Rightarrow> 32 word list \<Rightarrow> error + 32 word list" where
  "get_counts g [] fs counts = Inr counts"
| "get_counts g (v # vs) [] counts = Inl UndefinedBehaviour"
| "get_counts g (v # vs) (f # fs) counts =
     (case at_vec (nodes g) v of
        Inl e \<Rightarrow> Inl e
      | Inr n \<Rightarrow>
          if f then get_counts g vs fs (counts @ abundances n)
          else get_counts g vs fs
                 (count_down (abundances n)
                    (int_of_size (size_sub (length (abundances n)) 1)) counts))"

subsection \<open>The specification's counts\<close>

text \<open>
  Written from the specification's words: the abundance vectors of the steps, concatenated
  in path order, each as stored for a forward step and reversed otherwise.
\<close>

definition path_counts :: "node_t list \<Rightarrow> (nat \<times> bool) list \<Rightarrow> 32 word list" where
  "path_counts ns steps =
     concat (map (\<lambda>(v, f). if f then abundances (ns ! v) else rev (abundances (ns ! v))) steps)"

text \<open>
  What the steps of the extension loop add to the length of a spelling when every unitig
  has at least \<open>k - 1\<close> characters.
\<close>

fun steps_length :: "DBG \<Rightarrow> nat list \<Rightarrow> int" where
  "steps_length g [] = 0"
| "steps_length g (v # vs) =
     int (length (unitig (nodes g ! v))) - (int (unat (kmer_size g)) - 1) + steps_length g vs"

section \<open>Checking a path: \<open>DBG::check_path_consistency\<close>\<close>

text \<open>The inner loop: \<open>found\<close> becomes true at an arc with the wanted side and successor.\<close>

definition arc_found :: "arc_t list \<Rightarrow> bool \<Rightarrow> nat \<Rightarrow> bool" where
  "arc_found as f w =
     foldl (\<lambda>found a. if forward a = f \<and> successor a = w then True else found) False as"

text \<open>The outer loop over \<open>i < path_nodes.size() - 1\<close>, on a path that is not empty.\<close>

fun check_steps :: "DBG \<Rightarrow> nat list \<Rightarrow> bool list \<Rightarrow> error + bool" where
  "check_steps g (v # w # vs) (f # fs) =
     (case at_vec (nodes g) v of
        Inl e \<Rightarrow> Inl e
      | Inr n \<Rightarrow> if \<not> arc_found (arcs n) f w then Inr False else check_steps g (w # vs) fs)"
| "check_steps g _ _ = Inr True"

text \<open>
  On an empty path \<open>path_nodes.size() - 1\<close> wraps around, the loop is entered and reads
  \<open>path_nodes[0]\<close> of an empty vector.
\<close>

definition check_path_consistency :: "DBG \<Rightarrow> nat list \<Rightarrow> bool list \<Rightarrow> error + bool" where
  "check_path_consistency g path_nodes forwards =
     (if length path_nodes \<noteq> length forwards then Inr False
      else if path_nodes = [] then Inl UndefinedBehaviour
      else check_steps g path_nodes forwards)"

section \<open>Neighbour query: \<open>DBG::get_nodes_from\<close>\<close>

text \<open>
  The state of the loop is the three output vectors, in the order
  \<open>(forwards, to_nodes, to_forwards)\<close>; \<open>visited\<close> is the parameter \<open>mask\<close>.
\<close>

fun nodes_from_loop ::
  "arc_t list \<Rightarrow> bool list \<Rightarrow> bool list \<times> nat list \<times> bool list \<Rightarrow>
   error + bool list \<times> nat list \<times> bool list" where
  "nodes_from_loop [] visited out = Inr out"
| "nodes_from_loop (a # as) visited (forwards, to_nodes, to_forwards) =
     (case at_vec visited (successor a) of
        Inl e \<Rightarrow> Inl e
      | Inr masked \<Rightarrow>
          if masked then nodes_from_loop as visited (forwards, to_nodes, to_forwards)
          else nodes_from_loop as visited
                 (forwards @ [forward a], to_nodes @ [successor a], to_forwards @ [to_forward a]))"

definition get_nodes_from ::
  "DBG \<Rightarrow> nat \<Rightarrow> bool list \<Rightarrow> nat list \<Rightarrow> bool list \<Rightarrow> bool list \<Rightarrow>
   error + bool list \<times> nat list \<times> bool list" where
  "get_nodes_from g node forwards to_nodes to_forwards visited =
     (case at_vec (nodes g) node of
        Inl e \<Rightarrow> Inl e
      | Inr n \<Rightarrow> nodes_from_loop (arcs n) visited (forwards, [], []))"

text \<open>The outgoing arcs of a node whose successor is not masked, in arc order.\<close>

definition unmasked_arcs :: "DBG \<Rightarrow> nat \<Rightarrow> bool list \<Rightarrow> arc_t list" where
  "unmasked_arcs g node visited =
     filter (\<lambda>a. \<not> visited ! successor a) (arcs (nodes g ! node))"

section \<open>Input verification: overlaps, round trip, \<open>DBG::verify_input\<close>\<close>

definition overlaps :: "DBG \<Rightarrow> node_t \<Rightarrow> arc_t \<Rightarrow> error + bool" where
  "overlaps g node a =
     (let k1 = unat (kmer_size g - 1);
          tail_pos = (\<lambda>s. wrap64 (int (length s) - int (unat (kmer_size g)) + 1))
      in
      case (if forward a then substr_from (unitig node) (tail_pos (unitig node))
            else (case substr (unitig node) 0 k1 of
                    Inl e \<Rightarrow> Inl e
                  | Inr p \<Rightarrow> reverse_complement p)) of
        Inl e \<Rightarrow> Inl e
      | Inr u1 \<Rightarrow>
          (case subscript (nodes g) (successor a) of
             Inl e \<Rightarrow> Inl e
           | Inr m \<Rightarrow>
               (case (if to_forward a then substr (unitig m) 0 k1
                      else (case substr_from (unitig m) (tail_pos (unitig m)) of
                              Inl e \<Rightarrow> Inl e
                            | Inr p \<Rightarrow> reverse_complement p)) of
                  Inl e \<Rightarrow> Inl e
                | Inr u2 \<Rightarrow> Inr (u1 = u2))))"

fun verify_arcs :: "DBG \<Rightarrow> node_t \<Rightarrow> arc_t list \<Rightarrow> error + bool" where
  "verify_arcs g node [] = Inr True"
| "verify_arcs g node (a # as) =
     (case overlaps g node a of
        Inl e \<Rightarrow> Inl e
      | Inr ok \<Rightarrow> if \<not> ok then Inr False else verify_arcs g node as)"

fun verify_nodes :: "DBG \<Rightarrow> node_t list \<Rightarrow> error + bool" where
  "verify_nodes g [] = Inr True"
| "verify_nodes g (node # rest) =
     (case verify_arcs g node (arcs node) of
        Inl e \<Rightarrow> Inl e
      | Inr ok \<Rightarrow> if \<not> ok then Inr False else verify_nodes g rest)"

definition verify_overlaps :: "DBG \<Rightarrow> error + bool" where
  "verify_overlaps g = verify_nodes g (nodes g)"

subsection \<open>Serialisation: \<open>DBG::to_bcalm_file\<close>\<close>

definition digit_char :: "nat \<Rightarrow> char" where
  "digit_char d = ''0123456789'' ! d"

fun show_nat :: "nat \<Rightarrow> string" where
  "show_nat n = (if n < 10 then [digit_char n] else show_nat (n div 10) @ [digit_char (n mod 10)])"

definition show_int :: "int \<Rightarrow> string" where
  "show_int i = (if i < 0 then CHR ''-'' # show_nat (nat (- i)) else show_nat (nat i))"

definition newline :: char where
  "newline = CHR 0x0A"

definition sign_of :: "bool \<Rightarrow> string" where
  "sign_of b = (if b then ''+'' else ''-'')"

definition bcalm_entry :: "int \<Rightarrow> node_t \<Rightarrow> string" where
  "bcalm_entry ident node =
     ''>'' @ show_int ident @ '' LN:i:'' @ show_int (node_length node) @ '' ab:Z:''
     @ concat (map (\<lambda>ab. show_nat (unat ab) @ '' '') (abundances node))
     @ concat (map (\<lambda>a. ''L:'' @ sign_of (forward a) @ '':'' @ show_nat (successor a)
                         @ '':'' @ sign_of (to_forward a) @ '' '') (arcs node))
     @ [newline] @ unitig node @ [newline]"

fun bcalm_entries :: "int \<Rightarrow> node_t list \<Rightarrow> string" where
  "bcalm_entries ident [] = []"
| "bcalm_entries ident (node # rest) = bcalm_entry ident node @ bcalm_entries (ident + 1) rest"

text \<open>The text written to the file.\<close>

definition to_bcalm_file :: "DBG \<Rightarrow> string" where
  "to_bcalm_file g = bcalm_entries 0 (nodes g)"

subsection \<open>Round trip: \<open>DBG::validate\<close>\<close>

text \<open>
  \<open>stream >> tok\<close> skips white space and reads up to the next white space; it fails at
  the end of the file. The tokens of a text, in order:
\<close>

definition is_space :: "char \<Rightarrow> bool" where
  "is_space ch \<longleftrightarrow> ch \<in> {CHR 0x20, CHR 0x09, CHR 0x0A, CHR 0x0B, CHR 0x0C, CHR 0x0D}"

fun tokens_from :: "string \<Rightarrow> string \<Rightarrow> string list" where
  "tokens_from [] cur = (if cur = [] then [] else [cur])"
| "tokens_from (ch # rest) cur =
     (if is_space ch then (if cur = [] then tokens_from rest [] else cur # tokens_from rest [])
      else tokens_from rest (cur @ [ch]))"

definition tokens :: "string \<Rightarrow> string list" where
  "tokens s = tokens_from s []"

text \<open>
  The loop \<open>while(bcalm_dbg >> tok1 && this_dbg >> tok2) if(tok1 != tok2) return false;\<close>
  followed by \<open>return true\<close>: it ends as soon as either stream has no token left.
\<close>

fun compare_tokens :: "string list \<Rightarrow> string list \<Rightarrow> bool" where
  "compare_tokens (tok1 # rest1) (tok2 # rest2) =
     (if tok1 \<noteq> tok2 then False else compare_tokens rest1 rest2)"
| "compare_tokens _ _ = True"

text \<open>\<open>input\<close> is the text of the file named \<open>bcalm_file_name\<close>.\<close>

definition validate :: "DBG \<Rightarrow> string \<Rightarrow> bool" where
  "validate g input = compare_tokens (tokens input) (tokens (to_bcalm_file g))"

text \<open>\<open>verify_input\<close> runs both checks, prints one line for each and returns \<open>good\<close>.\<close>

definition verify_input :: "DBG \<Rightarrow> string \<Rightarrow> error + string list \<times> bool" where
  "verify_input g input =
     (case verify_overlaps g of
        Inl e \<Rightarrow> Inl e
      | Inr ov \<Rightarrow>
          (let val = validate g input in
           Inr ([if ov then ''YES! DBG is an overlapping graph!''
                 else ''OOPS! DBG is NOT an overlapping graph'',
                 if val then ''YES! DBG is the same as BCALM2 one!''
                 else ''OOPS! DBG is NOT the same as BCALM2 one!''],
                ov \<and> val)))"

section \<open>The driver: \<open>process_single_file\<close> (ustar.cpp)\<close>

text \<open>
  What the driver does with one input once the graph \<open>dbg\<close> has been read from the text
  \<open>input\<close>: the lines it prints and the stages it runs, in order. Before that point it
  has already opened both output files for writing and closed them again. The path cover,
  the extraction, the encoder and the writers belong to other classes and are named here,
  not computed. \<open>Bad input file\<close> goes to the error stream, followed by the name of the
  file.
\<close>

datatype action =
    Print string
  | ComputePathCover
  | ExtractSimplitigsAndCounts
  | Encode
  | WriteFasta
  | WriteCounts

definition process_single_file :: "bool \<Rightarrow> bool \<Rightarrow> DBG \<Rightarrow> string \<Rightarrow> error + action list" where
  "process_single_file debug skip_counts dbg input =
     (let stages = [ComputePathCover, ExtractSimplitigsAndCounts, Encode, WriteFasta]
                   @ (if skip_counts then [Print ''Skipping counts file (flag -n enabled)'']
                      else [WriteCounts])
      in
      if debug then
        (case verify_input dbg input of
           Inl e \<Rightarrow> Inl e
         | Inr (msgs, good) \<Rightarrow>
             if \<not> good then Inr (map Print msgs @ [Print ''Bad input file''])
             else Inr (map Print msgs @ stages))
      else Inr stages)"

section \<open>Parsing a record of the alternative dialect (\<open>DBG::parse_bcalm_file\<close>)\<close>

text \<open>
  \<open>(uint32_t) d\<close> for a \<open>double\<close>: the value truncated towards zero when that fits,
  undefined otherwise.
\<close>

definition double_to_u32 :: "real \<Rightarrow> error + 32 word" where
  "double_to_u32 d =
     (if -1 < d \<and> d < 2 ^ 32 then Inr (word_of_int (if 0 \<le> d then \<lfloor>d\<rfloor> else 0))
      else Inl UndefinedBehaviour)"

subsection \<open>Strings and conversions of the library\<close>

text \<open>\<open>std::string::npos\<close>, and \<open>s.find(ch, start)\<close>.\<close>

definition npos :: nat where
  "npos = 2 ^ 64 - 1"

fun find_at :: "char \<Rightarrow> string \<Rightarrow> nat \<Rightarrow> nat option" where
  "find_at ch [] i = None"
| "find_at ch (c # cs) i = (if c = ch then Some i else find_at ch cs (Suc i))"

definition find_char :: "string \<Rightarrow> char \<Rightarrow> nat \<Rightarrow> nat" where
  "find_char s ch start = (case find_at ch (drop start s) start of None \<Rightarrow> npos | Some i \<Rightarrow> i)"

text \<open>\<open>s[0]\<close> of a \<open>std::string\<close>: the terminating zero when \<open>s\<close> is empty.\<close>

definition first_char :: "string \<Rightarrow> char" where
  "first_char s = (case s of [] \<Rightarrow> CHR 0x00 | c # _ \<Rightarrow> c)"

text \<open>\<open>s.find(pat) != npos\<close> and \<open>strstr(s, pat) != nullptr\<close>.\<close>

definition starts_with :: "string \<Rightarrow> string \<Rightarrow> bool" where
  "starts_with pat s \<longleftrightarrow> take (length pat) s = pat"

fun contains :: "string \<Rightarrow> string \<Rightarrow> bool" where
  "contains pat [] = (pat = [])"
| "contains pat (c # cs) = (starts_with pat (c # cs) \<or> contains pat cs)"

text \<open>\<open>c_str()\<close> handed to \<open>strcpy\<close>: the characters before the first zero.\<close>

definition c_str :: "string \<Rightarrow> string" where
  "c_str s = takeWhile (\<lambda>c. c \<noteq> CHR 0x00) s"

text \<open>The tokens that successive calls of \<open>strtok(_, " ")\<close> return.\<close>

fun strtok_from :: "string \<Rightarrow> string \<Rightarrow> string list" where
  "strtok_from [] cur = (if cur = [] then [] else [cur])"
| "strtok_from (ch # rest) cur =
     (if ch = CHR '' '' then (if cur = [] then strtok_from rest [] else cur # strtok_from rest [])
      else strtok_from rest (cur @ [ch]))"

definition strtok_all :: "string \<Rightarrow> string list" where
  "strtok_all s = strtok_from s []"

text \<open>Decimal digits and their value.\<close>

definition is_digit :: "char \<Rightarrow> bool" where
  "is_digit c \<longleftrightarrow> c \<in> set ''0123456789''"

definition digit_value :: "char \<Rightarrow> nat" where
  "digit_value c = length (takeWhile (\<lambda>d. d \<noteq> c) ''0123456789'')"

definition decimal_value :: "string \<Rightarrow> nat" where
  "decimal_value ds = foldl (\<lambda>acc c. 10 * acc + digit_value c) 0 ds"

text \<open>
  \<open>std::stoull\<close>: white space, an optional sign and decimal digits; what follows the
  digits is ignored. No digit is \<open>std::invalid_argument\<close>, a number of \<open>2 ^ 64\<close> or more
  is \<open>std::out_of_range\<close>, and a minus sign negates modulo \<open>2 ^ 64\<close>.
\<close>

definition stoull :: "string \<Rightarrow> error + nat" where
  "stoull s =
     (let t = dropWhile is_space s;
          neg = (t \<noteq> [] \<and> hd t = CHR ''-'');
          u = (if t \<noteq> [] \<and> (hd t = CHR ''-'' \<or> hd t = CHR ''+'') then tl t else t);
          ds = takeWhile is_digit u
      in if ds = [] then Inl InvalidArgument
         else if 2 ^ 64 \<le> decimal_value ds then Inl OutOfRange
         else Inr (if neg then wrap64 (- int (decimal_value ds)) else decimal_value ds))"

text \<open>
  The directive \<open>%d\<close> of \<open>sscanf\<close>: white space, an optional sign and decimal digits;
  the result is the number and the text after it, or nothing when no digit is there.
\<close>

definition scan_d :: "string \<Rightarrow> (int \<times> string) option" where
  "scan_d s =
     (let t = dropWhile is_space s;
          neg = (t \<noteq> [] \<and> hd t = CHR ''-'');
          u = (if t \<noteq> [] \<and> (hd t = CHR ''-'' \<or> hd t = CHR ''+'') then tl t else t);
          ds = takeWhile is_digit u
      in if ds = [] then None
         else Some (if neg then - int (decimal_value ds) else int (decimal_value ds),
                    dropWhile is_digit u))"

subsection \<open>The header line\<close>

text \<open>
  Lines 106 to 123: the serial number is cut out of the line between the first underscore,
  when there is one before the first space found from position 1, or else the \<open>>\<close>,
  and that space; \<open>dyn_line\<close> receives what follows that space. The positions are
  \<open>size_t\<close>: without a space, \<open>space_pos\<close> is \<open>npos\<close> and \<open>space_pos + 1\<close> is 0.
  The result is the serial number and \<open>dyn_line\<close>, a buffer of \<open>max_line_len\<close>
  characters (\<open>MAX_LINE_LEN\<close>, defined in a header that is not among the sources).
\<close>

definition scan_alt_header :: "nat \<Rightarrow> string \<Rightarrow> error + nat \<times> string" where
  "scan_alt_header max_line_len line =
     (let underscore_pos = find_char line CHR ''_'' 0;
          space_pos = find_char line CHR '' '' 1
      in
      case (if underscore_pos \<noteq> npos \<and> underscore_pos < space_pos
            then substr line (underscore_pos + 1) (space_pos - underscore_pos - 1)
            else substr line 1 (space_pos - 1)) of
        Inl e \<Rightarrow> Inl e
      | Inr serial_str \<Rightarrow>
          (case stoull serial_str of
             Inl e \<Rightarrow> Inl e
           | Inr serial \<Rightarrow>
               (case substr_from line ((space_pos + 1) mod 2 ^ 64) of
                  Inl e \<Rightarrow> Inl e
                | Inr rest \<Rightarrow>
                    if max_line_len \<le> length (c_str rest) then Inl UndefinedBehaviour
                    else Inr (serial, c_str rest))))"

text \<open>
  Line 164, \<open>sscanf(dyn_line, "ka:f:%lf", &avg_abundance)\<close>: the five characters of the
  format must be the first five of \<open>dyn_line\<close>, then \<open>%lf\<close> reads a number. The
  conversion \<open>%lf\<close> itself (white space, a floating-point literal, rounded to a
  \<open>double\<close>) is the parameter \<open>scan_lf\<close>. The return value of \<open>sscanf\<close> is not looked
  at: \<open>None\<close> means that nothing was stored in \<open>avg_abundance\<close>.
\<close>

definition scan_ka :: "(string \<Rightarrow> real option) \<Rightarrow> string \<Rightarrow> real option" where
  "scan_ka scan_lf dyn_line =
     (if starts_with ''ka:f:'' dyn_line then scan_lf (drop 5 dyn_line) else None)"

text \<open>
  Line 189, \<open>sscanf(token, "%*2c %c %*c %d %*c %c", &s1, &arc.successor, &s2)\<close>: two
  characters are skipped, \<open>s1\<close> is read, one character is skipped, the successor is read,
  one character is skipped, \<open>s2\<close> is read; a blank in the format skips white space. Both
  signs are compared with \<open>+\<close> afterwards, whatever \<open>sscanf\<close> returned, so a token that
  ends early leaves a sign that was never stored. The successor is an unsigned 32-bit
  number filled through \<open>%d\<close>.
\<close>

definition scan_arc :: "string \<Rightarrow> error + arc_t" where
  "scan_arc token =
     (if length token < 2 then Inl UndefinedBehaviour
      else
        (case dropWhile is_space (drop 2 token) of
           [] \<Rightarrow> Inl UndefinedBehaviour
         | s1 # t1 \<Rightarrow>
             (case dropWhile is_space t1 of
                [] \<Rightarrow> Inl UndefinedBehaviour
              | _ # t2 \<Rightarrow>
                  (case scan_d t2 of
                     None \<Rightarrow> Inl UndefinedBehaviour
                   | Some (v, t3) \<Rightarrow>
                       if v < - (2 ^ 31) \<or> 2 ^ 31 \<le> v then Inl UndefinedBehaviour
                       else
                         (case dropWhile is_space t3 of
                            [] \<Rightarrow> Inl UndefinedBehaviour
                          | _ # t4 \<Rightarrow>
                              (case dropWhile is_space t4 of
                                 [] \<Rightarrow> Inl UndefinedBehaviour
                               | s2 # _ \<Rightarrow>
                                   Inr \<lparr>forward = (s1 = CHR ''+''),
                                        successor = nat (v mod 2 ^ 32),
                                        to_forward = (s2 = CHR ''+'')\<rparr>))))))"

fun scan_arcs :: "string list \<Rightarrow> error + arc_t list" where
  "scan_arcs [] = Inr []"
| "scan_arcs (token # rest) =
     (case scan_arc token of
        Inl e \<Rightarrow> Inl e
      | Inr a \<Rightarrow> (case scan_arcs rest of Inl e \<Rightarrow> Inl e | Inr as \<Rightarrow> Inr (a # as)))"

text \<open>
  Lines 176 to 195: when \<open>dyn_line\<close> contains \<open>L:\<close>, its first token is dropped and every
  later token is read as an arc.
\<close>

definition alt_arcs :: "string \<Rightarrow> error + arc_t list" where
  "alt_arcs dyn_line =
     scan_arcs (if contains ''L:'' dyn_line then tl (strtok_all dyn_line) else [])"

subsection \<open>One record\<close>

text \<open>
  Lines 208 to 239 for the alternative dialect, once the sequence line is read: the length,
  the abundances pushed one by one, the final check. A vector of 32-bit counts cannot hold
  \<open>2 ^ 61\<close> entries, so a count that wrapped around ends the loop by an exception
  (memory that runs out earlier is not modelled). Both casts of the average are the same
  conversion of the same value.
\<close>

definition finish_alt_node ::
  "32 word \<Rightarrow> real \<Rightarrow> 32 word \<Rightarrow> arc_t list \<Rightarrow> string \<Rightarrow> error + node_t" where
  "finish_alt_node k avg_abundance ab parsed_arcs line =
     (let n_kmers = wrap64 (int (length line) - int (unat k) + 1) in
      if 2 ^ 61 \<le> n_kmers then Inl BadAlloc
      else
        (let node = \<lparr>unitig = line,
                     node_length = int_of_size (length line),
                     abundances = replicate n_kmers ab,
                     arcs = parsed_arcs,
                     average_abundance = avg_abundance,
                     median_abundance = ab\<rparr>
         in
         if wrap64 (int (length (unitig node)) - int (unat k) + 1) \<noteq> length (abundances node)
         then Inl WrongNumberOfAbundances
         else Inr node))"

text \<open>
  The body of the parsing loop for one line \<open>line\<close> of the file, on the branch of the
  alternative dialect: \<open>n_nodes\<close> is \<open>nodes.size()\<close>, \<open>seq_line\<close> the next line of the
  file if there is one. \<open>Inr None\<close>: the line is a comment and the loop goes on;
  \<open>Inr (Some node)\<close>: \<open>node\<close> is pushed on \<open>nodes\<close>.
\<close>

definition parse_alt_record ::
  "(string \<Rightarrow> real option) \<Rightarrow> 32 word \<Rightarrow> nat \<Rightarrow> nat \<Rightarrow> string \<Rightarrow> string option \<Rightarrow>
   error + node_t option" where
  "parse_alt_record scan_lf k max_line_len n_nodes line seq_line =
     (if first_char line = CHR ''#'' then Inr None
      else if max_line_len < length line then Inl LineTooLong
      else if first_char line \<noteq> CHR ''>'' then Inl NoDefLine
      else if contains ''LN:i:'' line \<and> contains ''ab:Z:'' line then Inl OtherDialect
      else if \<not> contains ''ka:f:'' line then Inl UnknownFormat
      else
        (case scan_alt_header max_line_len line of
           Inl e \<Rightarrow> Inl e
         | Inr (serial, dyn_line) \<Rightarrow>
             if serial \<noteq> n_nodes then Inl NonProgressiveIDs
             else
               (case scan_ka scan_lf dyn_line of
                  None \<Rightarrow> Inl UndefinedBehaviour
                | Some avg_abundance \<Rightarrow>
                    (case double_to_u32 avg_abundance of
                       Inl e \<Rightarrow> Inl e
                     | Inr ab \<Rightarrow>
                         (case alt_arcs dyn_line of
                            Inl e \<Rightarrow> Inl e
                          | Inr parsed_arcs \<Rightarrow>
                              (case seq_line of
                                 None \<Rightarrow> Inl MissingSequence
                               | Some sq \<Rightarrow>
                                   (case finish_alt_node k avg_abundance ab parsed_arcs sq of
                                      Inl e \<Rightarrow> Inl e
                                    | Inr node \<Rightarrow> Inr (Some node))))))))"

section \<open>The \<open>-k\<close> option of \<open>parse_cli\<close> (ustar.cpp)\<close>

definition EXIT_SUCCESS :: int where
  "EXIT_SUCCESS = 0"

definition EXIT_FAILURE :: int where
  "EXIT_FAILURE = 1"

text \<open>The remainder of C++ takes the sign of the dividend.\<close>

definition rem_c :: "int \<Rightarrow> int \<Rightarrow> int" where
  "rem_c a b = sgn a * (\<bar>a\<bar> mod \<bar>b\<bar>)"

text \<open>
  \<open>v\<close> is what \<open>atoi(optarg)\<close> returned. \<open>Inl c\<close>: the process ends with exit code
  \<open>c\<close>; \<open>Inr k\<close>: parsing goes on with \<open>params.kmer_size = k\<close>.
\<close>

definition parse_cli_kmer_size :: "int \<Rightarrow> int + int" where
  "parse_cli_kmer_size v =
     (if v \<le> 0 then Inl EXIT_FAILURE
      else if rem_c v 2 = 0 then Inl EXIT_SUCCESS
      else Inr v)"

section \<open>Example graphs\<close>

text \<open>
  Three unitigs with \<open>k = 3\<close> whose arcs all overlap: \<open>ACGTA\<close> continues forward into
  \<open>TACC\<close> and into the reverse complement \<open>TACG\<close> of \<open>CGTA\<close>.
\<close>

definition g_ex :: DBG where
  "g_ex = \<lparr>nodes =
      [\<lparr>unitig = ''ACGTA'', node_length = 5, abundances = [2, 2, 1],
        arcs = [\<lparr>forward = True, successor = 1, to_forward = True\<rparr>,
                \<lparr>forward = True, successor = 2, to_forward = False\<rparr>],
        average_abundance = 5 / 3, median_abundance = 2\<rparr>,
       \<lparr>unitig = ''TACC'', node_length = 4, abundances = [1, 3],
        arcs = [\<lparr>forward = False, successor = 0, to_forward = False\<rparr>],
        average_abundance = 2, median_abundance = 1\<rparr>,
       \<lparr>unitig = ''CGTA'', node_length = 4, abundances = [4, 5],
        arcs = [\<lparr>forward = True, successor = 0, to_forward = False\<rparr>],
        average_abundance = 9 / 2, median_abundance = 4\<rparr>],
     kmer_size = 3\<rparr>"

text \<open>
  A graph as the parser accepts it (sequence lines are not checked for their characters):
  the second unitig holds an \<open>N\<close>.
\<close>

definition g_n :: DBG where
  "g_n = \<lparr>nodes =
      [\<lparr>unitig = ''ACGTA'', node_length = 5, abundances = [2, 2, 1],
        arcs = [\<lparr>forward = True, successor = 1, to_forward = False\<rparr>],
        average_abundance = 5 / 3, median_abundance = 2\<rparr>,
       \<lparr>unitig = ''CNTA'', node_length = 4, abundances = [1, 1],
        arcs = [\<lparr>forward = True, successor = 0, to_forward = False\<rparr>],
        average_abundance = 1, median_abundance = 1\<rparr>],
     kmer_size = 3\<rparr>"

text \<open>
  The two unitigs of the specification's first scenario: the arc of \<open>ACGTA\<close> names
  \<open>GTAC\<close>, whose first two characters are not the last two of \<open>ACGTA\<close>.
\<close>

definition g_s1 :: DBG where
  "g_s1 = \<lparr>nodes =
      [\<lparr>unitig = ''ACGTA'', node_length = 5, abundances = [2, 2, 1],
        arcs = [\<lparr>forward = True, successor = 1, to_forward = True\<rparr>],
        average_abundance = 5 / 3, median_abundance = 2\<rparr>,
       \<lparr>unitig = ''GTAC'', node_length = 4, abundances = [1, 3],
        arcs = [],
        average_abundance = 2, median_abundance = 1\<rparr>],
     kmer_size = 3\<rparr>"

text \<open>Another graph whose only arc joins unitigs that do not overlap.\<close>

definition g_mis :: DBG where
  "g_mis = \<lparr>nodes =
      [\<lparr>unitig = ''ACGTA'', node_length = 5, abundances = [2, 2, 1],
        arcs = [\<lparr>forward = True, successor = 1, to_forward = True\<rparr>],
        average_abundance = 5 / 3, median_abundance = 2\<rparr>,
       \<lparr>unitig = ''CCAC'', node_length = 4, abundances = [1, 3],
        arcs = [],
        average_abundance = 2, median_abundance = 1\<rparr>],
     kmer_size = 3\<rparr>"

text \<open>
  A file of one record followed by a comment line, and the graph the parser builds from it
  with \<open>k = 3\<close>.
\<close>

definition g_one :: DBG where
  "g_one = \<lparr>nodes =
      [\<lparr>unitig = ''ACG'', node_length = 3, abundances = [2], arcs = [],
        average_abundance = 2, median_abundance = 2\<rparr>],
     kmer_size = 3\<rparr>"

definition input_one :: string where
  "input_one = ''>0 LN:i:3 ab:Z:2'' @ [newline] @ ''ACG'' @ [newline] @ ''# end'' @ [newline]"

section \<open>Lemmas on the sequence utilities\<close>

lemma drop_update_here: "n < length xs \<Longrightarrow> drop n (xs[n := c]) = c # drop (Suc n) xs"
proof (induction xs arbitrary: n)
  case Nil
  then show ?case by simp
next
  case (Cons x xs)
  then show ?case by (cases n) simp_all
qed

lemma rc_loop_ok:
  "length rc = length s \<Longrightarrow> i \<le> length s \<Longrightarrow>
   \<forall>j. i \<le> j \<and> j < length s \<longrightarrow> complement (s ! j) \<noteq> None \<Longrightarrow>
   rc_loop s i rc =
     Inr (rev (map (\<lambda>ch. the (complement ch)) (drop i s)) @ drop (length s - i) rc)"
proof (induction s i rc rule: rc_loop.induct)
  case (1 s i rc)
  show ?case
  proof (cases "i < length s")
    case False
    with "1.prems" show ?thesis by (subst rc_loop.simps) simp
  next
    case True
    with "1.prems" obtain c where c: "complement (s ! i) = Some c" by auto
    let ?rc = "rc[length s - 1 - i := c]"
    have ih: "rc_loop s (Suc i) ?rc =
        Inr (rev (map (\<lambda>ch. the (complement ch)) (drop (Suc i) s)) @ drop (length s - Suc i) ?rc)"
      using "1.IH" [OF True c] "1.prems" True by simp
    have d1: "drop i s = s ! i # drop (Suc i) s"
      using True by (rule Cons_nth_drop_Suc [symmetric])
    have d2: "drop (length s - Suc i) ?rc = c # drop (length s - i) rc"
      using drop_update_here [of "length s - Suc i" rc c] True "1.prems"
      by (simp add: Suc_diff_Suc)
    show ?thesis
      using True c ih d1 d2 by (simp add: rc_loop.simps [of s i rc])
  qed
qed

lemma rc_loop_bad:
  "\<exists>j. i \<le> j \<and> j < length s \<and> complement (s ! j) = None \<Longrightarrow>
   rc_loop s i rc = Inl UnknownNucleotide"
proof (induction s i rc rule: rc_loop.induct)
  case (1 s i rc)
  from "1.prems" obtain j where j: "i \<le> j" "j < length s" "complement (s ! j) = None" by blast
  then have lt: "i < length s" by simp
  show ?case
  proof (cases "complement (s ! i)")
    case None
    with lt show ?thesis by (simp add: rc_loop.simps [of s i rc])
  next
    case (Some c)
    with j have "i \<noteq> j" by auto
    with j have "\<exists>j. Suc i \<le> j \<and> j < length s \<and> complement (s ! j) = None"
      by (intro exI [of _ j]) simp
    from "1.IH" [OF lt Some this] lt Some show ?thesis
      by (simp add: rc_loop.simps [of s i rc])
  qed
qed

lemma complement_None_iff: "complement ch = None \<longleftrightarrow> \<not> is_nucleotide ch"
  by (simp add: complement_def is_nucleotide_def upper_nt_def)

lemma complement_pair: "is_nucleotide ch \<Longrightarrow> the (complement ch) = pair_nt (upper_nt ch)"
  by (auto simp: complement_def is_nucleotide_def upper_nt_def pair_nt_def split: if_splits)

text \<open>The loop of the code computes the specification's \<open>revcomp\<close>, failures included.\<close>

lemma reverse_complement_revcomp_spec: "reverse_complement s = revcomp_spec s"
proof (cases "list_all is_nucleotide s")
  case True
  then have "\<forall>j. 0 \<le> j \<and> j < length s \<longrightarrow> complement (s ! j) \<noteq> None"
    using complement_None_iff by (auto simp: list_all_length)
  then have "rc_loop s 0 s = Inr (rev (map (\<lambda>ch. the (complement ch)) s))"
    using rc_loop_ok [of s s 0] by simp
  moreover have "map (\<lambda>ch. the (complement ch)) s = map (\<lambda>ch. pair_nt (upper_nt ch)) s"
    using True by (simp add: list_all_iff complement_pair)
  ultimately show ?thesis using True by (simp add: reverse_complement_def revcomp_spec_def)
next
  case False
  then obtain j where "j < length s" "\<not> is_nucleotide (s ! j)"
    by (auto simp: list_all_length)
  then have "\<exists>j. 0 \<le> j \<and> j < length s \<and> complement (s ! j) = None"
    using complement_None_iff by blast
  from rc_loop_bad [OF this] False show ?thesis
    by (simp add: reverse_complement_def revcomp_spec_def)
qed

lemma nucleotide_cases:
  "is_nucleotide ch \<longleftrightarrow>
   ch \<in> {CHR ''A'', CHR ''C'', CHR ''G'', CHR ''T'', CHR ''a'', CHR ''c'', CHR ''g'', CHR ''t''}"
  by (simp add: is_nucleotide_def upper_nt_def)

lemma revcomp_twice_eq:
  assumes "list_all is_nucleotide x"
  shows "revcomp_twice x = Inr (map upper_nt x)"
proof -
  let ?y = "rev (map (\<lambda>ch. pair_nt (upper_nt ch)) x)"
  have y: "list_all is_nucleotide ?y"
    using assms by (auto simp: list_all_iff is_nucleotide_def upper_nt_def pair_nt_def)
  have "map (\<lambda>ch. pair_nt (upper_nt ch)) (map (\<lambda>ch. pair_nt (upper_nt ch)) x) = map upper_nt x"
    using assms by (auto simp: list_all_iff is_nucleotide_def upper_nt_def pair_nt_def)
  then have "rev (map (\<lambda>ch. pair_nt (upper_nt ch)) ?y) = map upper_nt x"
    by (simp add: rev_map)
  with assms y show ?thesis
    by (simp add: revcomp_twice_def reverse_complement_revcomp_spec revcomp_spec_def)
qed

lemma upper_nt_fixed:
  "is_nucleotide ch \<Longrightarrow> upper_nt ch = ch \<longleftrightarrow> ch \<in> {CHR ''A'', CHR ''C'', CHR ''G'', CHR ''T''}"
  by (auto simp: is_nucleotide_def upper_nt_def split: if_splits)

section \<open>Reverse complement twice\<close>

text \<open>
  C7 (as amended). For every string \<open>x\<close> over A, C, G, T in either case,
  \<open>reverse_complement\<close> applied twice returns \<open>x\<close> converted to uppercase; the result is
  \<open>x\<close> itself exactly when \<open>x\<close> has no lowercase letter.
\<close>

theorem revcomp_twice_uppercases:
  assumes "list_all is_nucleotide x"
  shows "revcomp_twice x = Inr (map upper_nt x) \<and>
         (revcomp_twice x = Inr x \<longleftrightarrow> set x \<subseteq> {CHR ''A'', CHR ''C'', CHR ''G'', CHR ''T''})"
proof -
  have eq: "revcomp_twice x = Inr (map upper_nt x)"
    using assms by (rule revcomp_twice_eq)
  have "map upper_nt x = x \<longleftrightarrow> (\<forall>ch \<in> set x. upper_nt ch = ch)"
    by (simp add: map_idI map_eq_conv [where g = id, simplified])
  also have "\<dots> \<longleftrightarrow> (\<forall>ch \<in> set x. ch \<in> {CHR ''A'', CHR ''C'', CHR ''G'', CHR ''T''})"
    using assms upper_nt_fixed by (auto simp: list_all_iff)
  finally show ?thesis using eq by auto
qed

theorem revcomp_twice_uppercases_witness:
  "list_all is_nucleotide ''acGT'' \<and> revcomp_twice ''acGT'' = Inr ''ACGT'' \<and>
   revcomp_twice ''acGT'' \<noteq> Inr ''acGT''"
  using revcomp_twice_uppercases [of "''acGT''"]
  by (simp add: nucleotide_cases upper_nt_def)

text \<open>
  C7 as stated fails on a lowercase input, which \<open>reverse_complement\<close> accepts: the second
  application returns the uppercase string.
\<close>

theorem revcomp_involution_counterexample:
  "list_all is_nucleotide ''ac'' \<and> reverse_complement ''ac'' = Inr ''GT'' \<and>
   reverse_complement ''GT'' = Inr ''AC'' \<and> revcomp_twice ''ac'' \<noteq> Inr ''ac''"
  by (simp add: reverse_complement_revcomp_spec revcomp_spec_def revcomp_twice_def
      nucleotide_cases upper_nt_def pair_nt_def)

section \<open>Exit code for an even k-mer size\<close>

text \<open>
  C3. A non-positive value of \<open>-k\<close> ends the process with \<open>EXIT_FAILURE\<close>, but an even
  positive value ends it with \<open>EXIT_SUCCESS\<close>, that is with exit code 0: at \<open>-k 4\<close> the
  code does not return the non-zero code the claim asks for.
\<close>

theorem parse_cli_even_kmer_size_exits_zero:
  "parse_cli_kmer_size 4 = Inl 0 \<and> parse_cli_kmer_size 0 = Inl 1 \<and>
   parse_cli_kmer_size (- 3) = Inl 1 \<and> parse_cli_kmer_size 31 = Inr 31"
  by (simp add: parse_cli_kmer_size_def rem_c_def EXIT_SUCCESS_def EXIT_FAILURE_def)

section \<open>Spelling\<close>

lemma unat_k1: "k \<noteq> 0 \<Longrightarrow> unat (k - 1 :: 32 word) = unat k - 1"
  by (simp add: unat_minus_one)

lemma revcomp_spec_Inr:
  "revcomp_spec s = Inr u \<Longrightarrow> list_all is_nucleotide s \<and> u = rev (map (\<lambda>ch. pair_nt (upper_nt ch)) s)"
  by (auto simp: revcomp_spec_def split: if_splits)

lemma list_all_take: "list_all P xs \<Longrightarrow> list_all P (take n xs)"
  by (auto simp: list_all_iff dest: in_set_takeD)

lemma reverse_piece:
  assumes "revcomp_spec s = Inr u" and "m \<le> length s"
  shows "reverse_complement (take (length s - m) s) = Inr (last_chars (length u - m) u)"
proof -
  from assms(1) have nuc: "list_all is_nucleotide s"
    and u: "u = rev (map (\<lambda>ch. pair_nt (upper_nt ch)) s)"
    by (auto dest: revcomp_spec_Inr)
  have "last_chars (length u - m) u = drop m u"
    using assms(2) u by (simp add: last_chars_def)
  also have "\<dots> = rev (map (\<lambda>ch. pair_nt (upper_nt ch)) (take (length s - m) s))"
    using u by (simp add: drop_rev take_map)
  finally show ?thesis
    using nuc by (simp add: reverse_complement_revcomp_spec revcomp_spec_def list_all_take)
qed

lemma spell_extend_spec:
  assumes "length vs = length fs"
    and "list_all (\<lambda>v. v < length (nodes g)) vs"
    and "kmer_size g \<noteq> 0"
    and "list_all (\<lambda>v. unat (kmer_size g) - 1 \<le> length (unitig (nodes g ! v))) vs"
    and "spell_spec_rest (nodes g) (unat (kmer_size g)) (zip vs fs) = Inr rest"
  shows "spell_extend g vs fs contig = Inr (contig @ rest)"
  using assms
proof (induction vs arbitrary: fs contig rest)
  case Nil
  then show ?case by simp
next
  case (Cons v vs)
  from Cons.prems(1) obtain f fs' where fs: "fs = f # fs'" by (cases fs) auto
  let ?n = "nodes g ! v"
  let ?k1 = "unat (kmer_size g) - 1"
  have v: "v < length (nodes g)" and len: "?k1 \<le> length (unitig ?n)"
    using Cons.prems by simp_all
  have k1: "unat (kmer_size g - 1) = ?k1" using Cons.prems(3) by (rule unat_k1)
  from Cons.prems(5) fs obtain u rest' where
    u: "oriented_unitig ?n f = Inr u" and
    r: "spell_spec_rest (nodes g) (unat (kmer_size g)) (zip vs fs') = Inr rest'" and
    rest: "rest = last_chars (length u - ?k1) u @ rest'"
    by (auto split: sum.splits)
  have ih: "\<And>c. spell_extend g vs fs' c = Inr (c @ rest')"
    using Cons.IH [of fs' rest'] Cons.prems fs r by simp
  show ?case
  proof (cases f)
    case True
    with u have "u = unitig ?n" by (simp add: oriented_unitig_def)
    then have "last_chars (length u - ?k1) u = drop ?k1 (unitig ?n)"
      using len by (simp add: last_chars_def)
    then show ?thesis
      using True fs v len k1 ih rest by (simp add: at_vec_def substr_from_def)
  next
    case False
    with u have "revcomp_spec (unitig ?n) = Inr u" by (simp add: oriented_unitig_def)
    from reverse_piece [OF this len]
    show ?thesis
      using False fs v len k1 ih rest by (simp add: at_vec_def substr_def size_sub_def)
  qed
qed

text \<open>
  The specification's spelling exists for every non-empty path on which the unitigs of the
  reverse steps consist of nucleotides.
\<close>

lemma oriented_unitig_defined:
  "f \<or> list_all is_nucleotide (unitig n) \<Longrightarrow> \<exists>u. oriented_unitig n f = Inr u"
  by (auto simp: oriented_unitig_def revcomp_spec_def)

lemma spell_spec_rest_defined:
  "list_all (\<lambda>(v, f). f \<or> list_all is_nucleotide (unitig (ns ! v))) steps \<Longrightarrow>
   \<exists>rest. spell_spec_rest ns k steps = Inr rest"
proof (induction steps)
  case Nil
  then show ?case by simp
next
  case (Cons step steps)
  obtain v f where step: "step = (v, f)" by (cases step)
  from Cons.prems step obtain u where "oriented_unitig (ns ! v) f = Inr u"
    using oriented_unitig_defined [of f "ns ! v"] by auto
  moreover from Cons obtain rest where "spell_spec_rest ns k steps = Inr rest" by auto
  ultimately show ?case using step by simp
qed

lemma spell_spec_defined:
  assumes "steps \<noteq> []"
    and "list_all (\<lambda>(v, f). f \<or> list_all is_nucleotide (unitig (ns ! v))) steps"
  shows "\<exists>s. spell_spec ns k steps = Inr s"
proof -
  from assms(1) obtain v f rest where steps: "steps = (v, f) # rest"
    by (cases steps) auto
  from assms(2) steps obtain u where "oriented_unitig (ns ! v) f = Inr u"
    using oriented_unitig_defined [of f "ns ! v"] by auto
  moreover from assms(2) steps obtain r where "spell_spec_rest ns k rest = Inr r"
    using spell_spec_rest_defined [of ns rest k] by auto
  ultimately show ?thesis using steps by simp
qed

text \<open>
  C1 (as amended). On a non-empty path whose node and orientation vectors have the same
  length and hold valid node indices, in a graph with \<open>k \<ge> 1\<close> whose unitigs on the
  path have at least \<open>k - 1\<close> characters and whose unitigs on reverse steps consist of
  nucleotides, \<open>DBG::spell\<close> returns the spelling of the specification: the oriented
  unitig of the first step followed, for each later step, by the last
  \<open>len - (k - 1)\<close> characters of that step's oriented unitig (the unitig if the step
  is forward, its reverse complement otherwise).
\<close>

theorem spell_returns_spec_spelling:
  assumes "path_nodes \<noteq> []"
    and "length path_nodes = length forwards"
    and "list_all (\<lambda>v. v < length (nodes g)) path_nodes"
    and "kmer_size g \<noteq> 0"
    and "list_all (\<lambda>v. unat (kmer_size g) - 1 \<le> length (unitig (nodes g ! v))) path_nodes"
    and "list_all (\<lambda>(v, f). f \<or> list_all is_nucleotide (unitig (nodes g ! v)))
           (zip path_nodes forwards)"
  shows "\<exists>s. spell_spec (nodes g) (unat (kmer_size g)) (zip path_nodes forwards) = Inr s \<and>
             spell g path_nodes forwards = Inr s"
proof -
  from assms(1,2) have "zip path_nodes forwards \<noteq> []"
    by (cases path_nodes; cases forwards) auto
  from spell_spec_defined [OF this assms(6)] obtain s where
    s: "spell_spec (nodes g) (unat (kmer_size g)) (zip path_nodes forwards) = Inr s"
    by blast
  obtain v vs f fs where p: "path_nodes = v # vs" and q: "forwards = f # fs"
    using assms(1,2) by (cases path_nodes; cases forwards) auto
  let ?n = "nodes g ! v"
  from s p q obtain u rest where
    u: "oriented_unitig ?n f = Inr u" and
    r: "spell_spec_rest (nodes g) (unat (kmer_size g)) (zip vs fs) = Inr rest" and
    sr: "s = u @ rest"
    by (auto split: sum.splits)
  have first: "(if f then Inr (unitig ?n) else reverse_complement (unitig ?n)) = Inr u"
    using u by (cases f) (simp_all add: oriented_unitig_def reverse_complement_revcomp_spec)
  have "spell_extend g vs fs u = Inr (u @ rest)"
    using assms p q r by (intro spell_extend_spec) simp_all
  with first sr p q assms(2,3) have "spell g path_nodes forwards = Inr s"
    by (simp add: spell_def at_vec_def)
  with s show ?thesis by blast
qed

theorem spell_returns_spec_spelling_witness:
  "[0, 2] \<noteq> ([] :: nat list) \<and> length [0 :: nat, 2] = length [True, False] \<and>
   list_all (\<lambda>v. v < length (nodes g_ex)) [0, 2] \<and> kmer_size g_ex \<noteq> 0 \<and>
   list_all (\<lambda>v. unat (kmer_size g_ex) - 1 \<le> length (unitig (nodes g_ex ! v))) [0, 2] \<and>
   list_all (\<lambda>(v, f). f \<or> list_all is_nucleotide (unitig (nodes g_ex ! v)))
      (zip [0, 2] [True, False]) \<and>
   spell_spec (nodes g_ex) (unat (kmer_size g_ex)) (zip [0, 2] [True, False]) = Inr ''ACGTACG'' \<and>
   spell g_ex [0, 2] [True, False] = Inr ''ACGTACG''"
proof -
  have k: "kmer_size g_ex \<noteq> 0" by (simp add: g_ex_def)
  have v: "list_all (\<lambda>v. v < length (nodes g_ex)) [0, 2]" by (simp add: g_ex_def)
  have h: "list_all (\<lambda>v. unat (kmer_size g_ex) - 1 \<le> length (unitig (nodes g_ex ! v))) [0, 2]"
    by (simp add: g_ex_def)
  have n: "list_all (\<lambda>(v, f). f \<or> list_all is_nucleotide (unitig (nodes g_ex ! v)))
      (zip [0, 2] [True, False])"
    by (simp add: g_ex_def nucleotide_cases)
  have sp: "spell_spec (nodes g_ex) (unat (kmer_size g_ex)) (zip [0, 2] [True, False])
      = Inr ''ACGTACG''"
    by (simp add: g_ex_def oriented_unitig_def revcomp_spec_def nucleotide_cases upper_nt_def
        pair_nt_def last_chars_def)
  from spell_returns_spec_spelling [of "[0, 2]" "[True, False]" g_ex, OF _ _ v k h n] sp
  have "spell g_ex [0, 2] [True, False] = Inr ''ACGTACG''" by simp
  with k v h n sp show ?thesis by simp
qed

text \<open>
  C1 as stated fails: on a non-empty path with vectors of equal length and valid indices
  \<open>spell\<close> returns no string when the first step is a reverse step over a unitig that
  holds a character other than a nucleotide.
\<close>

theorem spell_first_step_counterexample:
  "[1 :: nat, 0] \<noteq> [] \<and> length [1 :: nat, 0] = length [False, True] \<and>
   list_all (\<lambda>v. v < length (nodes g_n)) [1, 0] \<and>
   spell g_n [1, 0] [False, True] = Inl UnknownNucleotide"
  by (simp add: g_n_def spell_def at_vec_def
      reverse_complement_revcomp_spec revcomp_spec_def nucleotide_cases)


section \<open>Counts\<close>

lemma int_of_size_pred: "n \<le> 2 ^ 31 \<Longrightarrow> int_of_size (size_sub n 1) = int n - 1"
proof (cases "n = 0")
  case True
  then show ?thesis by (simp add: int_of_size_def size_sub_def)
next
  case False
  assume b: "n \<le> 2 ^ 31"
  then have "int n \<le> 2 ^ 31" by (metis of_nat_le_iff of_nat_numeral of_nat_power)
  with False have "0 \<le> int n - 1 + 2 ^ 31" "int n - 1 + 2 ^ 31 < 2 ^ 32" by simp_all
  then have m: "(int n - 1 + 2 ^ 31) mod 2 ^ 32 = int n - 1 + 2 ^ 31"
    by (rule mod_pos_pos_trivial)
  have "size_sub n 1 = n - 1" using False by (simp add: size_sub_def)
  moreover have "int (n - 1) = int n - 1" using False by (simp add: of_nat_diff)
  ultimately show ?thesis using m by (simp add: int_of_size_def)
qed

lemma count_down_eq:
  "- 1 \<le> k \<Longrightarrow> k < int (length ab) \<Longrightarrow>
   count_down ab k counts = counts @ rev (take (nat (k + 1)) ab)"
proof (induction ab k counts rule: count_down.induct)
  case (1 ab k counts)
  show ?case
  proof (cases "- 1 < k")
    case False
    with "1.prems" have "k = - 1" by simp
    then show ?thesis by (subst count_down.simps) simp
  next
    case True
    then have nk: "nat (k + 1) = Suc (nat k)" by simp
    have lt: "nat k < length ab" using True "1.prems" by simp
    have "count_down ab (k - 1) (counts @ [ab ! nat k])
          = (counts @ [ab ! nat k]) @ rev (take (nat (k - 1 + 1)) ab)"
      using "1.IH" [OF True] True "1.prems" by simp
    then show ?thesis
      using True nk lt by (subst count_down.simps) (simp add: take_Suc_conv_app_nth)
  qed
qed

lemma count_down_rev:
  assumes "length ab \<le> 2 ^ 31"
  shows "count_down ab (int_of_size (size_sub (length ab) 1)) counts = counts @ rev ab"
proof -
  have "int_of_size (size_sub (length ab) 1) = int (length ab) - 1"
    using assms by (rule int_of_size_pred)
  then show ?thesis
    using count_down_eq [of "int (length ab) - 1" ab counts] by simp
qed

lemma get_counts_eq:
  assumes "length vs = length fs"
    and "list_all (\<lambda>v. v < length (nodes g)) vs"
    and "list_all (\<lambda>v. length (abundances (nodes g ! v)) \<le> 2 ^ 31) vs"
  shows "get_counts g vs fs counts = Inr (counts @ path_counts (nodes g) (zip vs fs))"
  using assms
proof (induction vs arbitrary: fs counts)
  case Nil
  then show ?case by (simp add: path_counts_def)
next
  case (Cons v vs)
  from Cons.prems(1) obtain f fs' where fs: "fs = f # fs'" by (cases fs) auto
  have ih: "\<And>c. get_counts g vs fs' c = Inr (c @ path_counts (nodes g) (zip vs fs'))"
    using Cons.IH [of fs'] Cons.prems fs by simp
  have v: "v < length (nodes g)" and b: "length (abundances (nodes g ! v)) \<le> 2 ^ 31"
    using Cons.prems by simp_all
  show ?case
    using fs v ih count_down_rev [OF b]
    by (simp add: at_vec_def path_counts_def)
qed

lemma reverse_complement_length: "reverse_complement s = Inr r \<Longrightarrow> length r = length s"
  by (auto simp: reverse_complement_revcomp_spec revcomp_spec_def split: if_splits)

lemma spell_extend_length:
  assumes "spell_extend g vs fs contig = Inr s"
    and "length vs = length fs"
    and "kmer_size g \<noteq> 0"
    and "list_all (\<lambda>v. unat (kmer_size g) - 1 \<le> length (unitig (nodes g ! v))) vs"
  shows "int (length s) = int (length contig) + steps_length g vs"
  using assms
proof (induction vs arbitrary: fs contig)
  case Nil
  then show ?case by simp
next
  case (Cons v vs)
  from Cons.prems(2) obtain f fs' where fs: "fs = f # fs'" by (cases fs) auto
  let ?n = "nodes g ! v"
  let ?k1 = "unat (kmer_size g) - 1"
  have k1: "unat (kmer_size g - 1) = ?k1" using Cons.prems(3) by (rule unat_k1)
  have kpos: "0 < unat (kmer_size g)" using Cons.prems(3) by (simp add: unat_gt_0)
  have len: "?k1 \<le> length (unitig ?n)" using Cons.prems(4) by simp
  from Cons.prems(1) fs have v: "at_vec (nodes g) v = Inr ?n"
    by (auto simp: at_vec_def split: if_splits)
  from Cons.prems(1) fs v obtain piece where
    ext: "spell_extend g vs fs' (contig @ piece) = Inr s" and
    pl: "length piece = length (unitig ?n) - ?k1"
    using k1 len
    by (auto simp: substr_from_def substr_def size_sub_def
        split: if_splits sum.splits dest!: reverse_complement_length)
  have "int (length s) = int (length (contig @ piece)) + steps_length g vs"
    using Cons.IH [OF ext] Cons.prems fs by simp
  then show ?case using pl len kpos by (simp add: of_nat_diff)
qed


lemma path_counts_length:
  assumes "length vs = length fs"
    and "list_all (\<lambda>v. int (length (abundances (nodes g ! v)))
            = int (length (unitig (nodes g ! v))) - int (unat (kmer_size g)) + 1) vs"
  shows "int (length (path_counts (nodes g) (zip vs fs))) = steps_length g vs"
  using assms
proof (induction vs arbitrary: fs)
  case Nil
  then show ?case by (simp add: path_counts_def)
next
  case (Cons v vs)
  from Cons.prems(1) obtain f fs' where fs: "fs = f # fs'" by (cases fs) auto
  have "int (length (path_counts (nodes g) (zip vs fs'))) = steps_length g vs"
    using Cons.IH [of fs'] Cons.prems fs by simp
  moreover have "path_counts (nodes g) (zip (v # vs) fs)
      = (if f then abundances (nodes g ! v) else rev (abundances (nodes g ! v)))
        @ path_counts (nodes g) (zip vs fs')"
    using fs by (simp add: path_counts_def)
  ultimately show ?case using Cons.prems(2) by simp
qed

lemma spell_length:
  assumes "spell g vs fs = Inr s"
    and "kmer_size g \<noteq> 0"
    and "list_all (\<lambda>v. unat (kmer_size g) - 1 \<le> length (unitig (nodes g ! v))) vs"
  shows "int (length s) = steps_length g vs + int (unat (kmer_size g)) - 1"
proof -
  from assms(1) have eq: "length vs = length fs" and ne: "vs \<noteq> []"
    by (auto simp: spell_def split: if_splits)
  then obtain v vs' f fs' where p: "vs = v # vs'" and q: "fs = f # fs'"
    by (cases vs; cases fs) auto
  let ?n = "nodes g ! v"
  from assms(1) p q have v: "at_vec (nodes g) v = Inr ?n"
    by (auto simp: spell_def at_vec_def split: if_splits)
  from assms(1) p q v obtain u where
    ext: "spell_extend g vs' fs' u = Inr s" and ul: "length u = length (unitig ?n)"
    by (auto simp: spell_def split: if_splits sum.splits dest!: reverse_complement_length)
  have "int (length s) = int (length u) + steps_length g vs'"
    using ext eq p q assms(2,3) by (intro spell_extend_length [where fs = fs']) simp_all
  with ul p show ?thesis by simp
qed

lemma spell_g_ex: "spell g_ex [0, 2] [True, False] = Inr ''ACGTACG''"
  by (simp add: g_ex_def spell_def at_vec_def substr_def substr_from_def size_sub_def
      reverse_complement_revcomp_spec revcomp_spec_def nucleotide_cases upper_nt_def pair_nt_def)

text \<open>
  C2. On a path whose node and orientation vectors have the same length and hold valid node
  indices, \<open>DBG::get_counts\<close> appends to the caller's vector, step by step in path
  order, the abundance vector of the node as stored when the step is forward and reversed
  otherwise (the backward loop counts with an \<open>int\<close>, so the vectors have at most
  \<open>2 ^ 31\<close> entries). If moreover \<open>k \<ge> 1\<close>, every node on the path has
  \<open>len(abundances) = len(unitig) - k + 1\<close> and \<open>spell\<close> returns \<open>s\<close> for the path,
  then the appended counts number \<open>len(s) - k + 1\<close>.
\<close>

theorem get_counts_appends_aligned:
  assumes "length path_nodes = length forwards"
    and "list_all (\<lambda>v. v < length (nodes g)) path_nodes"
    and "list_all (\<lambda>v. length (abundances (nodes g ! v)) \<le> 2 ^ 31) path_nodes"
  shows "get_counts g path_nodes forwards counts
           = Inr (counts @ path_counts (nodes g) (zip path_nodes forwards)) \<and>
         (kmer_size g \<noteq> 0 \<and>
          list_all (\<lambda>v. int (length (abundances (nodes g ! v)))
             = int (length (unitig (nodes g ! v))) - int (unat (kmer_size g)) + 1) path_nodes \<and>
          spell g path_nodes forwards = Inr s \<longrightarrow>
          int (length (path_counts (nodes g) (zip path_nodes forwards)))
             = int (length s) - int (unat (kmer_size g)) + 1)"
proof (intro conjI impI)
  show "get_counts g path_nodes forwards counts
           = Inr (counts @ path_counts (nodes g) (zip path_nodes forwards))"
    using assms by (rule get_counts_eq)
next
  assume h: "kmer_size g \<noteq> 0 \<and>
          list_all (\<lambda>v. int (length (abundances (nodes g ! v)))
             = int (length (unitig (nodes g ! v))) - int (unat (kmer_size g)) + 1) path_nodes \<and>
          spell g path_nodes forwards = Inr s"
  then have inv: "list_all (\<lambda>v. int (length (abundances (nodes g ! v)))
             = int (length (unitig (nodes g ! v))) - int (unat (kmer_size g)) + 1) path_nodes"
    by simp
  have "\<And>v. int (length (abundances (nodes g ! v)))
             = int (length (unitig (nodes g ! v))) - int (unat (kmer_size g)) + 1
          \<Longrightarrow> unat (kmer_size g) - 1 \<le> length (unitig (nodes g ! v))"
    by linarith
  with inv have lens: "list_all (\<lambda>v. unat (kmer_size g) - 1 \<le> length (unitig (nodes g ! v))) path_nodes"
    by (simp add: list_all_iff)
  have "int (length s) = steps_length g path_nodes + int (unat (kmer_size g)) - 1"
    using h lens by (intro spell_length [where fs = forwards]) simp_all
  moreover have "int (length (path_counts (nodes g) (zip path_nodes forwards)))
      = steps_length g path_nodes"
    using assms(1) inv by (rule path_counts_length)
  ultimately show "int (length (path_counts (nodes g) (zip path_nodes forwards)))
             = int (length s) - int (unat (kmer_size g)) + 1"
    by simp
qed

theorem get_counts_appends_aligned_witness:
  "length [0 :: nat, 2] = length [True, False] \<and>
   list_all (\<lambda>v. v < length (nodes g_ex)) [0, 2] \<and>
   list_all (\<lambda>v. length (abundances (nodes g_ex ! v)) \<le> 2 ^ 31) [0, 2] \<and>
   kmer_size g_ex \<noteq> 0 \<and>
   list_all (\<lambda>v. int (length (abundances (nodes g_ex ! v)))
      = int (length (unitig (nodes g_ex ! v))) - int (unat (kmer_size g_ex)) + 1) [0, 2] \<and>
   spell g_ex [0, 2] [True, False] = Inr ''ACGTACG'' \<and>
   get_counts g_ex [0, 2] [True, False] [7] = Inr [7, 2, 2, 1, 5, 4] \<and>
   get_counts g_ex [0, 2] [True, False] [] = Inr [2, 2, 1, 5, 4] \<and>
   int (length (path_counts (nodes g_ex) (zip [0, 2] [True, False])))
      = int (length ''ACGTACG'') - 3 + 1"
proof -
  have h1: "list_all (\<lambda>v. v < length (nodes g_ex)) [0, 2]" by (simp add: g_ex_def)
  have h2: "list_all (\<lambda>v. length (abundances (nodes g_ex ! v)) \<le> 2 ^ 31) [0, 2]"
    by (simp add: g_ex_def)
  have h3: "kmer_size g_ex \<noteq> 0" by (simp add: g_ex_def)
  have h4: "list_all (\<lambda>v. int (length (abundances (nodes g_ex ! v)))
      = int (length (unitig (nodes g_ex ! v))) - int (unat (kmer_size g_ex)) + 1) [0, 2]"
    by (simp add: g_ex_def)
  have k: "unat (kmer_size g_ex) = 3" by (simp add: g_ex_def)
  have pc: "path_counts (nodes g_ex) (zip [0, 2] [True, False]) = [2, 2, 1, 5, 4]"
    by (simp add: g_ex_def path_counts_def)
  from get_counts_appends_aligned [of "[0, 2]" "[True, False]" g_ex "[7]" "''ACGTACG''", OF _ h1 h2]
    get_counts_appends_aligned [of "[0, 2]" "[True, False]" g_ex "[]" "''ACGTACG''", OF _ h1 h2]
    h1 h2 h3 h4 spell_g_ex k pc
  show ?thesis by simp
qed


section \<open>When \<open>spell\<close> returns\<close>

lemma reverse_complement_error: "reverse_complement s = Inl e \<Longrightarrow> e = UnknownNucleotide"
  by (auto simp: reverse_complement_revcomp_spec revcomp_spec_def split: if_splits)

lemma reverse_complement_returns:
  "list_all is_nucleotide s \<Longrightarrow> \<exists>r. reverse_complement s = Inr r"
  by (simp add: reverse_complement_revcomp_spec revcomp_spec_def)

lemma spell_extend_errors:
  "spell_extend g vs fs c = Inl e \<Longrightarrow> e = OutOfRange \<or> e = UnknownNucleotide"
proof (induction g vs fs c rule: spell_extend.induct)
  case (1 g v vs f fs contig)
  then show ?case
    by (auto simp: at_vec_def substr_def substr_from_def
        split: if_splits sum.splits dest: reverse_complement_error)
qed simp_all

lemma spell_extend_returns:
  assumes "length vs = length fs"
    and "list_all (\<lambda>v. v < length (nodes g)) vs"
    and "kmer_size g \<noteq> 0"
    and "list_all (\<lambda>v. unat (kmer_size g) - 1 \<le> length (unitig (nodes g ! v))) vs"
    and "list_all (\<lambda>(v, f). f \<or> list_all is_nucleotide (unitig (nodes g ! v))) (zip vs fs)"
  shows "\<exists>s. spell_extend g vs fs contig = Inr s"
  using assms
proof (induction vs arbitrary: fs contig)
  case Nil
  then show ?case by simp
next
  case (Cons v vs)
  from Cons.prems(1) obtain f fs' where fs: "fs = f # fs'" by (cases fs) auto
  let ?n = "nodes g ! v"
  let ?k1 = "unat (kmer_size g) - 1"
  have v: "v < length (nodes g)" and len: "?k1 \<le> length (unitig ?n)"
    using Cons.prems by simp_all
  have k1: "unat (kmer_size g - 1) = ?k1" using Cons.prems(3) by (rule unat_k1)
  have ih: "\<And>c. \<exists>s. spell_extend g vs fs' c = Inr s"
    using Cons.IH [of fs'] Cons.prems fs by simp
  show ?case
  proof (cases f)
    case True
    then show ?thesis
      using fs v len k1 ih by (simp add: at_vec_def substr_from_def)
  next
    case False
    with Cons.prems(5) fs have "list_all is_nucleotide (unitig ?n)" by simp
    then have "list_all is_nucleotide (take (length (unitig ?n) - ?k1) (unitig ?n))"
      by (rule list_all_take)
    then obtain r where "reverse_complement (take (length (unitig ?n) - ?k1) (unitig ?n)) = Inr r"
      using reverse_complement_returns by blast
    then show ?thesis
      using False fs v len k1 ih by (simp add: at_vec_def substr_def size_sub_def)
  qed
qed

text \<open>
  C10 (as amended). \<open>DBG::spell\<close> signals a fatal error whenever the node and orientation
  vectors differ in length or the path is empty. On a non-empty path with vectors of equal
  length neither of these two errors is raised; and \<open>spell\<close> returns a string when
  moreover the node indices are valid, \<open>k \<ge> 1\<close>, every unitig on the path has at
  least \<open>k - 1\<close> characters and the unitig of every reverse step consists of
  nucleotides.
\<close>

theorem spell_guards_and_return:
  "(length path_nodes \<noteq> length forwards \<longrightarrow> spell g path_nodes forwards = Inl InconsistentPath) \<and>
   (length path_nodes = length forwards \<and> path_nodes = [] \<longrightarrow>
      spell g path_nodes forwards = Inl EmptyPath) \<and>
   (length path_nodes = length forwards \<and> path_nodes \<noteq> [] \<longrightarrow>
      spell g path_nodes forwards \<noteq> Inl InconsistentPath \<and>
      spell g path_nodes forwards \<noteq> Inl EmptyPath) \<and>
   (length path_nodes = length forwards \<and> path_nodes \<noteq> [] \<and>
    list_all (\<lambda>v. v < length (nodes g)) path_nodes \<and>
    kmer_size g \<noteq> 0 \<and>
    list_all (\<lambda>v. unat (kmer_size g) - 1 \<le> length (unitig (nodes g ! v))) path_nodes \<and>
    list_all (\<lambda>(v, f). f \<or> list_all is_nucleotide (unitig (nodes g ! v)))
      (zip path_nodes forwards) \<longrightarrow>
      (\<exists>s. spell g path_nodes forwards = Inr s))"
proof (intro conjI impI)
  show "length path_nodes \<noteq> length forwards \<Longrightarrow> spell g path_nodes forwards = Inl InconsistentPath"
    by (simp add: spell_def)
next
  show "length path_nodes = length forwards \<and> path_nodes = [] \<Longrightarrow>
      spell g path_nodes forwards = Inl EmptyPath"
    by (auto simp: spell_def)
next
  assume h: "length path_nodes = length forwards \<and> path_nodes \<noteq> []"
  have "\<And>e. spell g path_nodes forwards = Inl e \<Longrightarrow> e = OutOfRange \<or> e = UnknownNucleotide"
    using h
    by (auto simp: spell_def at_vec_def split: if_splits sum.splits
        dest: reverse_complement_error spell_extend_errors)
  then show "spell g path_nodes forwards \<noteq> Inl InconsistentPath"
    and "spell g path_nodes forwards \<noteq> Inl EmptyPath"
    by fastforce+
next
  assume h: "length path_nodes = length forwards \<and> path_nodes \<noteq> [] \<and>
    list_all (\<lambda>v. v < length (nodes g)) path_nodes \<and>
    kmer_size g \<noteq> 0 \<and>
    list_all (\<lambda>v. unat (kmer_size g) - 1 \<le> length (unitig (nodes g ! v))) path_nodes \<and>
    list_all (\<lambda>(v, f). f \<or> list_all is_nucleotide (unitig (nodes g ! v)))
      (zip path_nodes forwards)"
  then obtain v vs f fs where p: "path_nodes = v # vs" and q: "forwards = f # fs"
    by (cases path_nodes; cases forwards) auto
  let ?n = "nodes g ! v"
  have "\<exists>u. (if f then Inr (unitig ?n) else reverse_complement (unitig ?n)) = Inr u"
    using h p q by (cases f) (simp_all add: reverse_complement_returns)
  then obtain u where u: "(if f then Inr (unitig ?n) else reverse_complement (unitig ?n)) = Inr u"
    by blast
  have "\<exists>s. spell_extend g vs fs u = Inr s"
    using h p q by (intro spell_extend_returns) simp_all
  with u h p q show "\<exists>s. spell g path_nodes forwards = Inr s"
    by (simp add: spell_def at_vec_def)
qed

theorem spell_guards_and_return_witness:
  "spell g_ex [0] [] = Inl InconsistentPath \<and> spell g_ex [] [] = Inl EmptyPath \<and>
   list_all (\<lambda>v. v < length (nodes g_ex)) [0, 2] \<and> kmer_size g_ex \<noteq> 0 \<and>
   list_all (\<lambda>v. unat (kmer_size g_ex) - 1 \<le> length (unitig (nodes g_ex ! v))) [0, 2] \<and>
   list_all (\<lambda>(v, f). f \<or> list_all is_nucleotide (unitig (nodes g_ex ! v)))
      (zip [0, 2] [True, False]) \<and>
   (\<exists>s. spell g_ex [0, 2] [True, False] = Inr s) \<and>
   spell g_ex [0, 2] [True, False] \<noteq> Inl InconsistentPath \<and>
   spell g_ex [0, 2] [True, False] \<noteq> Inl EmptyPath"
proof -
  have h1: "list_all (\<lambda>v. v < length (nodes g_ex)) [0, 2]" by (simp add: g_ex_def)
  have h2: "kmer_size g_ex \<noteq> 0" by (simp add: g_ex_def)
  have h3: "list_all (\<lambda>v. unat (kmer_size g_ex) - 1 \<le> length (unitig (nodes g_ex ! v))) [0, 2]"
    by (simp add: g_ex_def)
  have h4: "list_all (\<lambda>(v, f). f \<or> list_all is_nucleotide (unitig (nodes g_ex ! v)))
      (zip [0, 2] [True, False])"
    by (simp add: g_ex_def nucleotide_cases)
  from spell_guards_and_return [of "[0]" "[]" g_ex]
    spell_guards_and_return [of "[]" "[]" g_ex]
    spell_guards_and_return [of "[0, 2]" "[True, False]" g_ex]
    h1 h2 h3 h4
  show ?thesis by simp
qed

text \<open>
  C10 as stated fails: on a non-empty path with vectors of equal length and valid indices,
  \<open>spell\<close> still leaves through the fatal branch of \<open>reverse_complement\<close> when a
  reverse step meets a character that is not a nucleotide.
\<close>

theorem spell_unknown_nucleotide_counterexample:
  "[0 :: nat, 1] \<noteq> [] \<and> length [0 :: nat, 1] = length [True, False] \<and>
   list_all (\<lambda>v. v < length (nodes g_n)) [0, 1] \<and>
   spell g_n [0, 1] [True, False] = Inl UnknownNucleotide"
  by (simp add: g_n_def spell_def at_vec_def substr_def substr_from_def size_sub_def
      reverse_complement_revcomp_spec revcomp_spec_def nucleotide_cases)


section \<open>Path consistency\<close>

lemma foldl_found:
  "foldl (\<lambda>found a. if forward a = f \<and> successor a = w then True else found) acc as
     \<longleftrightarrow> acc \<or> (\<exists>a \<in> set as. forward a = f \<and> successor a = w)"
  by (induction as arbitrary: acc) auto

lemma arc_found_iff:
  "arc_found as f w \<longleftrightarrow> (\<exists>a \<in> set as. forward a = f \<and> successor a = w)"
  by (simp add: arc_found_def foldl_found)

lemma check_steps_eq:
  assumes "length vs = length fs" and "vs \<noteq> []"
    and "list_all (\<lambda>v. v < length (nodes g)) (butlast vs)"
  shows "check_steps g vs fs =
     Inr (\<forall>i. Suc i < length vs \<longrightarrow>
            (\<exists>a \<in> set (arcs (nodes g ! (vs ! i))).
               forward a = fs ! i \<and> successor a = vs ! Suc i))"
  using assms
proof (induction vs arbitrary: fs)
  case Nil
  then show ?case by simp
next
  case (Cons v vs)
  from Cons.prems(1) obtain f fs' where fs: "fs = f # fs'" by (cases fs) auto
  show ?case
  proof (cases vs)
    case Nil
    with fs show ?thesis by simp
  next
    case (Cons w ws)
    have v: "v < length (nodes g)" using Cons.prems(3) Cons by simp
    have ih: "check_steps g vs fs' =
       Inr (\<forall>i. Suc i < length vs \<longrightarrow>
            (\<exists>a \<in> set (arcs (nodes g ! (vs ! i))).
               forward a = fs' ! i \<and> successor a = vs ! Suc i))"
      using Cons.IH [of fs'] Cons.prems fs Cons by simp
    show ?thesis
      using fs Cons v ih
      by (auto simp: at_vec_def arc_found_iff All_less_Suc2)
  qed
qed

text \<open>
  C5 (as amended). \<open>DBG::check_path_consistency\<close> returns false when the node and
  orientation vectors differ in length. On a non-empty path with vectors of equal length
  whose node indices before the last are valid, it returns true if and only if for every
  consecutive pair of steps \<open>(v, f_v)\<close>, \<open>(w, f_w)\<close> node \<open>v\<close> has an outgoing arc
  with \<open>forward = f_v\<close> and \<open>successor = w\<close>; the \<open>to_forward\<close> of the arc is not
  compared with \<open>f_w\<close>.
\<close>

theorem check_path_consistency_checks_source_side:
  "(length path_nodes \<noteq> length forwards \<longrightarrow>
      check_path_consistency g path_nodes forwards = Inr False) \<and>
   (length path_nodes = length forwards \<and> path_nodes \<noteq> [] \<and>
    list_all (\<lambda>v. v < length (nodes g)) (butlast path_nodes) \<longrightarrow>
      check_path_consistency g path_nodes forwards =
        Inr (\<forall>i. Suc i < length path_nodes \<longrightarrow>
               (\<exists>a \<in> set (arcs (nodes g ! (path_nodes ! i))).
                  forward a = forwards ! i \<and> successor a = path_nodes ! Suc i)))"
  by (simp add: check_path_consistency_def check_steps_eq)

theorem check_path_consistency_checks_source_side_witness:
  "check_path_consistency g_ex [0, 2] [True] = Inr False \<and>
   list_all (\<lambda>v. v < length (nodes g_ex)) (butlast [0, 2]) \<and>
   check_path_consistency g_ex [0, 2] [True, False] = Inr True \<and>
   check_path_consistency g_ex [0, 2] [False, False] = Inr False"
proof -
  have h: "list_all (\<lambda>v. v < length (nodes g_ex)) (butlast [0, 2])" by (simp add: g_ex_def)
  from check_path_consistency_checks_source_side [of "[0, 2]" "[True]" g_ex]
    check_path_consistency_checks_source_side [of "[0, 2]" "[True, False]" g_ex]
    check_path_consistency_checks_source_side [of "[0, 2]" "[False, False]" g_ex] h
  show ?thesis by (simp add: g_ex_def)
qed

text \<open>
  C5 as stated fails: the path \<open>(0, +), (1, -)\<close> is accepted although node 0 has no arc
  that leaves its forward side and enters node 1 reversed; the arc found enters node 1
  forward.
\<close>

theorem check_path_consistency_ignores_to_forward_counterexample:
  "length [0 :: nat, 1] = length [True, False] \<and>
   check_path_consistency g_ex [0, 1] [True, False] = Inr True \<and>
   \<not> list_ex (\<lambda>a. forward a = True \<and> successor a = 1 \<and> to_forward a = False)
       (arcs (nodes g_ex ! 0))"
  by (simp add: g_ex_def check_path_consistency_def at_vec_def arc_found_def)


section \<open>Neighbour query\<close>

lemma nodes_from_loop_eq:
  assumes "list_all (\<lambda>a. successor a < length visited) as"
  shows "nodes_from_loop as visited (fw, tn, tf) =
     Inr (fw @ map forward (filter (\<lambda>a. \<not> visited ! successor a) as),
          tn @ map successor (filter (\<lambda>a. \<not> visited ! successor a) as),
          tf @ map to_forward (filter (\<lambda>a. \<not> visited ! successor a) as))"
  using assms
  by (induction as arbitrary: fw tn tf) (simp_all add: at_vec_def)

text \<open>
  C9. For a valid node whose arcs point inside the mask, \<open>DBG::get_nodes_from\<close> returns
  \<open>to_nodes\<close> and \<open>to_forwards\<close> rebuilt from the unmasked outgoing arcs of the node,
  whatever they held before, and \<open>forwards\<close> with the sides of these arcs appended to
  its previous content. Hence the three vectors have the same length, and agree entry by
  entry with the unmasked arcs, exactly when \<open>forwards\<close> was empty at the call.
\<close>

theorem get_nodes_from_keeps_forwards:
  assumes "node < length (nodes g)"
    and "list_all (\<lambda>a. successor a < length visited) (arcs (nodes g ! node))"
  shows "get_nodes_from g node forwards to_nodes to_forwards visited =
           Inr (forwards @ map forward (unmasked_arcs g node visited),
                map successor (unmasked_arcs g node visited),
                map to_forward (unmasked_arcs g node visited)) \<and>
         (length (forwards @ map forward (unmasked_arcs g node visited))
            = length (map successor (unmasked_arcs g node visited)) \<longleftrightarrow> forwards = [])"
  using assms nodes_from_loop_eq [of visited "arcs (nodes g ! node)" forwards "[]" "[]"]
  by (simp add: get_nodes_from_def at_vec_def unmasked_arcs_def)

theorem get_nodes_from_keeps_forwards_witness:
  "0 < length (nodes g_ex) \<and>
   list_all (\<lambda>a. successor a < length [False, True, False]) (arcs (nodes g_ex ! 0)) \<and>
   get_nodes_from g_ex 0 [] [9] [True] [False, True, False] = Inr ([True], [2], [False]) \<and>
   get_nodes_from g_ex 0 [False] [9] [True] [False, True, False]
     = Inr ([False, True], [2], [False])"
proof -
  have h1: "0 < length (nodes g_ex)" by (simp add: g_ex_def)
  have h2: "list_all (\<lambda>a. successor a < length [False, True, False]) (arcs (nodes g_ex ! 0))"
    by (simp add: g_ex_def)
  have u: "unmasked_arcs g_ex 0 [False, True, False]
      = [\<lparr>forward = True, successor = 2, to_forward = False\<rparr>]"
    by (simp add: unmasked_arcs_def g_ex_def)
  from get_nodes_from_keeps_forwards [OF h1 h2, of "[]" "[9]" "[True]"]
    get_nodes_from_keeps_forwards [OF h1 h2, of "[False]" "[9]" "[True]"] h1 h2 u
  show ?thesis by simp
qed



section \<open>Synthesized abundances of the alternative dialect\<close>

lemma wrap64_small: "0 \<le> i \<Longrightarrow> i < 2 ^ 64 \<Longrightarrow> wrap64 i = nat i"
  by (simp add: wrap64_def)

lemma n_kmers_exact:
  assumes "k \<le> n" and "n < 2 ^ 63"
  shows "wrap64 (int n - int k + 1) = n - k + 1"
proof -
  have "int n < 2 ^ 63" using assms(2) by (metis of_nat_less_iff of_nat_numeral of_nat_power)
  then have "0 \<le> int n - int k + 1" "int n - int k + 1 < 2 ^ 64" using assms(1) by simp_all
  then have "wrap64 (int n - int k + 1) = nat (int n - int k + 1)" by (rule wrap64_small)
  also have "\<dots> = n - k + 1" using assms(1) by simp
  finally show ?thesis .
qed

text \<open>
  Once the average has been read, the abundances are the cast of the average repeated
  \<open>len - k + 1\<close> times.
\<close>

lemma finish_alt_node_synthesizes:
  assumes "unat k \<le> length seq" and "length seq + 1 < 2 ^ 61"
  shows "finish_alt_node k avg ab parsed_arcs seq =
           Inr \<lparr>unitig = seq,
                node_length = int_of_size (length seq),
                abundances = replicate (length seq - unat k + 1) ab,
                arcs = parsed_arcs,
                average_abundance = avg,
                median_abundance = ab\<rparr>"
proof -
  have "length seq < 2 ^ 63" using assms(2) by simp
  with assms(1) have w: "wrap64 (int (length seq) - int (unat k) + 1) = length seq - unat k + 1"
    by (rule n_kmers_exact)
  have "length seq - unat k + 1 < 2 ^ 61" using assms by simp
  with w show ?thesis by (simp add: finish_alt_node_def Let_def)
qed

lemma hdr2: "scan_alt_header (12 + m) ''>0  ka:f:5.0'' = Inr (0, '' ka:f:5.0'')"
  by (simp add: scan_alt_header_def find_char_def npos_def substr_def substr_from_def stoull_def
      is_space_def is_digit_def decimal_value_def digit_value_def c_str_def Let_def)

lemma hdr1: "scan_alt_header (11 + m) ''>0 ka:f:5.0'' = Inr (0, ''ka:f:5.0'')"
  by (simp add: scan_alt_header_def find_char_def npos_def substr_def substr_from_def stoull_def
      is_space_def is_digit_def decimal_value_def digit_value_def c_str_def Let_def)

lemma c1: "contains ''ka:f:'' ''>0  ka:f:5.0''" "\<not> contains ''LN:i:'' ''>0  ka:f:5.0''"
  by (simp_all add: starts_with_def)

lemma arc1: "scan_arc ''L:-:27:+'' = Inr \<lparr>forward = False, successor = 27, to_forward = True\<rparr>"
  by (simp add: scan_arc_def scan_d_def is_space_def is_digit_def decimal_value_def
      digit_value_def Let_def)

lemma parse_alt_record_one_space:
  assumes "scan_lf ''5.0'' = Some 5"
  shows "parse_alt_record scan_lf 3 (11 + m) 0 ''>0 ka:f:5.0'' (Some ''ACGTACG'')
     = Inr (Some \<lparr>unitig = ''ACGTACG'', node_length = 7, abundances = [5, 5, 5, 5, 5],
                   arcs = [], average_abundance = 5, median_abundance = 5\<rparr>)"
proof -
  have r: "replicate 5 (5 :: 32 word) = [5, 5, 5, 5, 5]" by (simp add: numeral_eq_Suc)
  have f: "finish_alt_node 3 5 5 [] ''ACGTACG''
      = Inr \<lparr>unitig = ''ACGTACG'', node_length = 7, abundances = [5, 5, 5, 5, 5],
                   arcs = [], average_abundance = 5, median_abundance = 5\<rparr>"
    using r by (simp add: finish_alt_node_def wrap64_def int_of_size_def Let_def)
  show ?thesis
    using assms f
    by (simp add: parse_alt_record_def first_char_def starts_with_def hdr1 scan_ka_def
        double_to_u32_def alt_arcs_def)
qed


text \<open>
  C8. The abundances of a record of the alternative dialect are \<open>floor(AVG)\<close> repeated
  \<open>len - k + 1\<close> times only when \<open>ka:f:\<close> follows the first space of the header at
  once. With two spaces after the identifier, \<open>dyn_line\<close> starts with a space, the
  \<open>sscanf\<close> of the average matches nothing, and the average is read without ever having
  been stored, for every line buffer that admits the header and every conversion
  \<open>%lf\<close>: the node does not get the abundances \<open>5 5 5 5 5\<close> of the claim.
\<close>

theorem parse_alt_record_two_spaces:
  "parse_alt_record scan_lf 3 (12 + m) 0 ''>0  ka:f:5.0'' (Some ''ACGTACG'')
     = Inl UndefinedBehaviour"
  by (simp add: parse_alt_record_def first_char_def starts_with_def hdr2 scan_ka_def)

section \<open>Round trip\<close>

lemma compare_tokens_refl: "compare_tokens xs xs"
  by (induction xs) simp_all

lemma compare_tokens_prefix: "compare_tokens (xs @ ys) xs" "compare_tokens xs (xs @ ys)"
proof -
  show "compare_tokens (xs @ ys) xs"
  proof (induction xs)
    case Nil
    then show ?case by (cases ys) simp_all
  qed simp
  show "compare_tokens xs (xs @ ys)"
    by (induction xs) simp_all
qed

lemma tok_one: "tokens (to_bcalm_file g_one) = [''>0'', ''LN:i:3'', ''ab:Z:2'', ''ACG'']"
  by (simp add: tokens_def to_bcalm_file_def g_one_def bcalm_entry_def show_int_def
      digit_char_def newline_def is_space_def sign_of_def)

lemma tok_in: "tokens input_one = [''>0'', ''LN:i:3'', ''ab:Z:2'', ''ACG''] @ [''#'', ''end'']"
  by (simp add: tokens_def input_one_def newline_def is_space_def)

text \<open>
  C6. \<open>DBG::validate\<close> compares the two token streams only as far as the shorter one
  reaches: for the file of one record followed by the comment line \<open># end\<close> it returns
  true although the file has two tokens that the serialised graph lacks.
\<close>

theorem validate_accepts_trailing_tokens:
  "validate g_one input_one = True \<and> tokens input_one \<noteq> tokens (to_bcalm_file g_one)"
  by (simp add: validate_def tok_one tok_in)

section \<open>The driver after a failed verification\<close>

lemma overlaps_s1: "verify_overlaps g_s1 = Inr False"
  by (simp add: verify_overlaps_def g_s1_def overlaps_def substr_def substr_from_def
      subscript_def wrap64_def Let_def)

text \<open>
  C4 (as amended). In debug mode, when overlap verification or round-trip validation fails,
  \<open>verify_input\<close> prints one line for each of the two checks, saying whether it passed,
  and returns false; the driver then prints \<open>Bad input file\<close> and returns from that
  input: none of the later stages (path cover, extraction of simplitigs and counts,
  encoding, writing of the two outputs) runs. With debug off the checks are not run and
  every stage runs.
\<close>

theorem process_single_file_stops_on_bad_input:
  assumes "verify_overlaps dbg = Inr ov" and "\<not> (ov \<and> validate dbg input)"
  shows "verify_input dbg input =
           Inr ([if ov then ''YES! DBG is an overlapping graph!''
                 else ''OOPS! DBG is NOT an overlapping graph'',
                 if validate dbg input then ''YES! DBG is the same as BCALM2 one!''
                 else ''OOPS! DBG is NOT the same as BCALM2 one!''], False) \<and>
         process_single_file True skip_counts dbg input =
           Inr [Print (if ov then ''YES! DBG is an overlapping graph!''
                       else ''OOPS! DBG is NOT an overlapping graph''),
                Print (if validate dbg input then ''YES! DBG is the same as BCALM2 one!''
                       else ''OOPS! DBG is NOT the same as BCALM2 one!''),
                Print ''Bad input file''] \<and>
         process_single_file False skip_counts dbg input =
           Inr ([ComputePathCover, ExtractSimplitigsAndCounts, Encode, WriteFasta]
                @ (if skip_counts then [Print ''Skipping counts file (flag -n enabled)'']
                   else [WriteCounts]))"
  using assms by (simp add: verify_input_def process_single_file_def Let_def)

theorem process_single_file_stops_on_bad_input_witness:
  "verify_overlaps g_s1 = Inr False \<and> validate g_s1 (to_bcalm_file g_s1) \<and>
   verify_input g_s1 (to_bcalm_file g_s1)
     = Inr ([''OOPS! DBG is NOT an overlapping graph'',
             ''YES! DBG is the same as BCALM2 one!''], False) \<and>
   process_single_file True False g_s1 (to_bcalm_file g_s1)
     = Inr [Print ''OOPS! DBG is NOT an overlapping graph'',
            Print ''YES! DBG is the same as BCALM2 one!'',
            Print ''Bad input file''] \<and>
   process_single_file False False g_s1 (to_bcalm_file g_s1)
     = Inr [ComputePathCover, ExtractSimplitigsAndCounts, Encode, WriteFasta, WriteCounts]"
proof -
  have v: "validate g_s1 (to_bcalm_file g_s1)"
    by (simp add: validate_def compare_tokens_refl)
  from process_single_file_stops_on_bad_input [OF overlaps_s1, of "to_bcalm_file g_s1" False]
    v overlaps_s1
  show ?thesis by simp
qed


text \<open>
  C4 as stated fails: with debug on, a graph with an arc that does not overlap ends the
  processing of its input after the diagnostics, while the same input goes through every
  stage with debug off.
\<close>

theorem process_single_file_not_diagnostic_only_counterexample:
  "verify_overlaps g_mis = Inr False \<and>
   process_single_file True False g_mis (to_bcalm_file g_mis)
     = Inr [Print ''OOPS! DBG is NOT an overlapping graph'',
            Print ''YES! DBG is the same as BCALM2 one!'',
            Print ''Bad input file''] \<and>
   process_single_file False False g_mis (to_bcalm_file g_mis)
     = Inr [ComputePathCover, ExtractSimplitigsAndCounts, Encode, WriteFasta, WriteCounts]"
proof -
  have o: "verify_overlaps g_mis = Inr False"
    by (simp add: verify_overlaps_def g_mis_def overlaps_def substr_def substr_from_def
        subscript_def wrap64_def Let_def)
  have v: "validate g_mis (to_bcalm_file g_mis)"
    by (simp add: validate_def compare_tokens_refl)
  show ?thesis
    using o v by (simp add: process_single_file_def verify_input_def Let_def)
qed


end
